theory Spec2Isabelle
  imports Main "HOL-Library.Sublist" "HOL-Library.Multiset"
begin

section \<open>Strings as the extension sees them\<close>

text \<open>
  A JavaScript string is a sequence of UTF-16 code units. The model uses \<^typ>\<open>string\<close>
  and reads every \<^typ>\<open>char\<close> as one code unit below 256, which covers the ASCII
  sources, paths and identifiers the extension handles. \<open>startsWith\<close>, \<open>endsWith\<close>
  and \<open>includes\<close> are the methods of the same names (\<open>endsWith\<close> is the suffix test,
  computed as a prefix test on the reversed strings); \<open>indexOf\<close> returns \<open>None\<close>
  where JavaScript returns \<open>-1\<close>.
\<close>

definition startsWith :: "string \<Rightarrow> string \<Rightarrow> bool" where
  "startsWith s p = prefix p s"

definition endsWith :: "string \<Rightarrow> string \<Rightarrow> bool" where
  "endsWith s p = prefix (rev p) (rev s)"

fun str_includes :: "string \<Rightarrow> string \<Rightarrow> bool" where
  "str_includes [] sub = (sub = [])"
| "str_includes (c # cs) sub = (prefix sub (c # cs) \<or> str_includes cs sub)"

fun indexOf :: "string \<Rightarrow> char \<Rightarrow> nat option" where
  "indexOf [] x = None"
| "indexOf (c # cs) x = (if c = x then Some 0 else map_option Suc (indexOf cs x))"

text \<open>\<open>s.split(sep)\<close> for a one-character separator: never empty, \<open>"".split("#")\<close> is \<open>[""]\<close>.\<close>

fun split_on :: "char \<Rightarrow> string \<Rightarrow> string list" where
  "split_on sep [] = [[]]"
| "split_on sep (c # cs) =
     (if c = sep then [] # split_on sep cs
      else (case split_on sep cs of
              [] \<Rightarrow> [[c]]
            | p # ps \<Rightarrow> (c # p) # ps))"

text \<open>\<open>path.join(dir, name)\<close> for a plain entry name and a normalised POSIX directory path
  other than the root \<open>/\<close> (which \<open>path.join\<close> would not follow with a second slash).\<close>

definition path_join :: "string \<Rightarrow> string \<Rightarrow> string" where
  "path_join dir name = dir @ ''/'' @ name"


section \<open>Regular expressions of the declaration scanner\<close>

text \<open>
  The two patterns of \<open>resolveTestsInFile\<close> use literals, character classes under
  \<open>+\<close>, \<open>*\<close> and the lazy \<open>*?\<close>, alternation, optional groups and one capture group.
  \<open>rx_match\<close> is the backtracking matcher for exactly these constructs: it lists every
  way the pattern can match at the start of the input, in the order in which the engine
  tries them (greedy quantifiers longest first, lazy ones shortest first, alternatives
  left to right, an optional group before its omission). The engine's answer is the
  head of that list. A match state is the input still to read and the capture so far.
\<close>

definition is_space :: "char \<Rightarrow> bool" where
  "is_space c = (let n = (of_char c :: nat) in (9 \<le> n \<and> n \<le> 13) \<or> n = 32 \<or> n = 160)"

definition is_word :: "char \<Rightarrow> bool" where
  "is_word c = (let n = (of_char c :: nat) in
     (97 \<le> n \<and> n \<le> 122) \<or> (65 \<le> n \<and> n \<le> 90) \<or> (48 \<le> n \<and> n \<le> 57) \<or> n = 95)"

datatype rx =
    Lit string
  | Plus "char \<Rightarrow> bool"
  | Star "char \<Rightarrow> bool"
  | LazyStar "char \<Rightarrow> bool"
  | Seq rx rx
  | Alt rx rx
  | Opt rx
  | Cap rx

fun greedy_rests :: "(char \<Rightarrow> bool) \<Rightarrow> string \<Rightarrow> string list" where
  "greedy_rests p [] = [[]]"
| "greedy_rests p (c # cs) = (if p c then greedy_rests p cs @ [c # cs] else [c # cs])"

fun lazy_rests :: "(char \<Rightarrow> bool) \<Rightarrow> string \<Rightarrow> string list" where
  "lazy_rests p [] = [[]]"
| "lazy_rests p (c # cs) = (c # cs) # (if p c then lazy_rests p cs else [])"

fun rx_match :: "rx \<Rightarrow> string \<times> string option \<Rightarrow> (string \<times> string option) list" where
  "rx_match (Lit l) (s, c) = (if prefix l s then [(drop (length l) s, c)] else [])"
| "rx_match (Plus p) (s, c) = map (\<lambda>r. (r, c)) (butlast (greedy_rests p s))"
| "rx_match (Star p) (s, c) = map (\<lambda>r. (r, c)) (greedy_rests p s)"
| "rx_match (LazyStar p) (s, c) = map (\<lambda>r. (r, c)) (lazy_rests p s)"
| "rx_match (Seq a b) st = concat (map (rx_match b) (rx_match a st))"
| "rx_match (Alt a b) st = rx_match a st @ rx_match b st"
| "rx_match (Opt a) st = rx_match a st @ [st]"
| "rx_match (Cap a) (s, c) =
     map (\<lambda>(r, _). (r, Some (take (length s - length r) s))) (rx_match a (s, c))"

text \<open>
  \<open>re.exec(s)\<close> of a global pattern, started at \<open>lastIndex\<close>: the input is the text
  from \<open>lastIndex\<close> on; the first position where the pattern matches wins. The answer
  holds the text from the match's start (what \<open>s.substring(match.index)\<close> is), the
  text after the match (where \<open>lastIndex\<close> now points) and the capture.
\<close>

fun rx_search :: "rx \<Rightarrow> string \<Rightarrow> (string \<times> string \<times> string option) option" where
  "rx_search re [] =
     (case rx_match re ([], None) of
        [] \<Rightarrow> None
      | (r, c) # _ \<Rightarrow> Some ([], r, c))"
| "rx_search re (x # xs) =
     (case rx_match re (x # xs, None) of
        [] \<Rightarrow> rx_search re xs
      | (r, c) # _ \<Rightarrow> Some (x # xs, r, c))"

text \<open>\<^verbatim>\<open>/class\s+(\w+)(?:\s*:\s*\w+(?:<[^>]*>)?)?\s*{/g\<close>\<close>

definition classRegex :: rx where
  "classRegex =
     Seq (Lit ''class'') (Seq (Plus is_space) (Seq (Cap (Plus is_word))
       (Seq (Opt (Seq (Star is_space) (Seq (Lit '':'') (Seq (Star is_space) (Seq (Plus is_word)
                 (Opt (Seq (Lit ''<'') (Seq (Star (\<lambda>c. c \<noteq> CHR ''>'')) (Lit ''>'')))))))))
       (Seq (Star is_space) (Lit ''{'')))))"

text \<open>\<^verbatim>\<open>/@Test[^]*?(?:fun|suspend fun)\s+(\w+)\s*\([^)]*\)/g\<close>\<close>

definition methodRegex :: rx where
  "methodRegex =
     Seq (Lit ''@Test'') (Seq (LazyStar (\<lambda>c. True)) (Seq (Alt (Lit ''fun'') (Lit ''suspend fun''))
       (Seq (Plus is_space) (Seq (Cap (Plus is_word)) (Seq (Star is_space)
         (Seq (Lit ''('') (Seq (Star (\<lambda>c. c \<noteq> CHR '')'')) (Lit '')''))))))))"

text \<open>A match never leaves more input than it was given, and a pattern that begins with
  a non-empty literal leaves less: the two \<open>while (exec)\<close> loops advance.\<close>

lemma greedy_rests_length: "r \<in> set (greedy_rests p s) \<Longrightarrow> length r \<le> length s"
  by (induction s) (auto split: if_splits)

lemma lazy_rests_length: "r \<in> set (lazy_rests p s) \<Longrightarrow> length r \<le> length s"
  by (induction s) (auto split: if_splits)

lemma rx_match_length: "(r, c') \<in> set (rx_match re (s, c)) \<Longrightarrow> length r \<le> length s"
proof (induction re arbitrary: s c r c')
  case (Plus p)
  then show ?case by (auto dest!: in_set_butlastD greedy_rests_length)
next
  case (Star p)
  then show ?case by (auto dest: greedy_rests_length)
next
  case (LazyStar p)
  then show ?case by (auto dest: lazy_rests_length)
next
  case (Seq a b)
  from Seq.prems obtain m cm where m: "(m, cm) \<in> set (rx_match a (s, c))"
    and r: "(r, c') \<in> set (rx_match b (m, cm))" by auto
  from Seq.IH(1)[OF m] Seq.IH(2)[OF r] show ?case by simp
next
  case (Alt a b)
  then show ?case by auto
next
  case (Opt a)
  then show ?case by auto
next
  case (Cap a)
  then show ?case by auto
qed (auto split: if_splits)

lemma rx_match_literal_first:
  assumes "(r, c') \<in> set (rx_match (Seq (Lit l) b) (s, c))" and "l \<noteq> []"
  shows "length r < length s"
proof -
  from assms(1) have p: "prefix l s" and r: "(r, c') \<in> set (rx_match b (drop (length l) s, c))"
    by (auto split: if_splits)
  from p have "length l \<le> length s" by (rule prefix_length_le)
  with assms(2) have "length (drop (length l) s) < length s" by (cases l) auto
  with rx_match_length[OF r] show ?thesis by simp
qed

lemma rx_search_shorter:
  assumes "rx_search (Seq (Lit l) b) s = Some (at, r, c)" and "l \<noteq> []"
  shows "length r < length s"
  using assms(1)
proof (induction s)
  case Nil
  then obtain ms where "rx_match (Seq (Lit l) b) ([], None) = (r, c) # ms"
    by (auto simp del: rx_match.simps split: list.splits)
  then have "(r, c) \<in> set (rx_match (Seq (Lit l) b) ([], None))" by simp
  from rx_match_literal_first[OF this assms(2)] show ?case by simp
next
  case step: (Cons x xs)
  show ?case
  proof (cases "rx_match (Seq (Lit l) b) (x # xs, None)")
    case Nil
    with step.prems have "rx_search (Seq (Lit l) b) xs = Some (at, r, c)"
      by (simp del: rx_match.simps)
    from step.IH[OF this] show ?thesis by simp
  next
    case (Cons m ms)
    with step.prems have "m = (r, c)"
      by (auto simp del: rx_match.simps split: prod.splits)
    with Cons have "(r, c) \<in> set (rx_match (Seq (Lit l) b) (x # xs, None))" by simp
    from rx_match_literal_first[OF this assms(2)] show ?thesis .
  qed
qed

text \<open>
  The loop \<open>while ((classMatch = classRegex.exec(content)) !== null)\<close>: every match of
  the class pattern, as the text from \<open>classMatch.index\<close> on and the captured name.
\<close>

function class_matches :: "string \<Rightarrow> (string \<times> string) list" where
  "class_matches s =
     (case rx_search classRegex s of
        None \<Rightarrow> []
      | Some (at, r, c) \<Rightarrow> (at, case c of None \<Rightarrow> [] | Some n \<Rightarrow> n) # class_matches r)"
  by pat_completeness auto
termination
  by (relation "measure length") (auto simp: classRegex_def dest: rx_search_shorter)

text \<open>The loop \<open>while ((methodMatch = methodRegex.exec(classContent)) !== null)\<close>: the
  captured names, in order.\<close>

function method_matches :: "string \<Rightarrow> string list" where
  "method_matches s =
     (case rx_search methodRegex s of
        None \<Rightarrow> []
      | Some (at, r, c) \<Rightarrow> (case c of None \<Rightarrow> [] | Some n \<Rightarrow> n) # method_matches r)"
  by pat_completeness auto
termination
  by (relation "measure length") (auto simp: methodRegex_def dest: rx_search_shorter)

declare class_matches.simps [simp del] method_matches.simps [simp del]

text \<open>
  The brace counter: \<open>while (braceCount > 0 && endPos < classContent.length)\<close>. It is
  entered with \<open>braceCount = 1\<close> just after the first opening brace of the text.
\<close>

function brace_loop :: "string \<Rightarrow> nat \<Rightarrow> nat \<Rightarrow> nat" where
  "brace_loop classContent braceCount endPos =
     (if braceCount > 0 \<and> endPos < length classContent then
        (if classContent ! endPos = CHR ''{'' then brace_loop classContent (braceCount + 1) (endPos + 1)
         else if classContent ! endPos = CHR ''}'' then brace_loop classContent (braceCount - 1) (endPos + 1)
         else brace_loop classContent braceCount (endPos + 1))
      else endPos)"
  by pat_completeness auto
termination
  by (relation "measure (\<lambda>(classContent, braceCount, endPos). length classContent - endPos)") auto

declare brace_loop.simps [simp del]

text \<open>The text scanned for one class's methods: \<open>content.substring(classMatch.index)\<close>, cut
  after the brace at which the counter returns to zero.\<close>

definition class_text :: "string \<Rightarrow> string" where
  "class_text classContent =
     (case indexOf classContent CHR ''{'' of
        None \<Rightarrow> classContent
      | Some openBraces \<Rightarrow> take (brace_loop classContent 1 (openBraces + 1)) classContent)"

text \<open>What one scan of a file's content finds: each class whose name includes \<open>Test\<close>,
  with the names its method loop captures, in source order.\<close>

definition scanDeclarations :: "string \<Rightarrow> (string \<times> string list) list" where
  "scanDeclarations content =
     map (\<lambda>(at, className). (className, method_matches (class_text at)))
       (filter (\<lambda>(at, className). str_includes className ''Test'') (class_matches content))"


text \<open>Counting braces in a text, to say where a block is closed.\<close>

definition opens :: "string \<Rightarrow> nat" where
  "opens t = count_list t CHR ''{''"

definition closes :: "string \<Rightarrow> nat" where
  "closes t = count_list t CHR ''}''"

text \<open>\<open>stays_open n t\<close>: no prefix of \<open>t\<close> closes more than \<open>n\<close> braces beyond those it
  opens. It decides the condition on all prefixes for a given text.\<close>

fun stays_open :: "nat \<Rightarrow> string \<Rightarrow> bool" where
  "stays_open n [] = True"
| "stays_open n (c # cs) =
     (if c = CHR ''{'' then stays_open (Suc n) cs
      else if c = CHR ''}'' then 0 < n \<and> stays_open (n - 1) cs
      else stays_open n cs)"


section \<open>File classification and the directory walk\<close>

text \<open>
  A directory entry as \<open>readdir(dir, {withFileTypes: true})\<close> reports it: a regular
  file with the content \<open>readFile\<close> would return (\<open>None\<close>: the read fails), a
  directory with its own listing, a directory whose listing fails, or an entry that is
  neither a file nor a directory.
\<close>

datatype dirent =
    File string "string option"
  | Dir string "dirent list"
  | BrokenDir string
  | Other string

text \<open>The name test of the \<open>else if\<close> branch, with JavaScript's precedence: \<open>&&\<close>
  binds tighter than \<open>||\<close>.\<close>

definition name_guard :: "string \<Rightarrow> bool" where
  "name_guard name =
     (endsWith name ''.kt'' \<or>
      (endsWith name ''.kts'' \<and> (str_includes name ''Test'' \<or> str_includes name ''Tests'')))"

definition content_guard :: "string \<Rightarrow> bool" where
  "content_guard content =
     (str_includes content ''@Test'' \<or> str_includes content ''import org.junit'' \<or>
      str_includes content ''import kotlin.test'' \<or> str_includes content ''import io.kotest'')"

definition dir_guard :: "string \<Rightarrow> bool" where
  "dir_guard name = (startsWith name ''.'' \<and> \<not> startsWith name ''build'')"

text \<open>
  \<open>findKotlinTestFiles dir entries\<close>: the paths the walk of \<open>dir\<close> accepts, where
  \<open>entries\<close> is the listing of \<open>dir\<close>. The source starts one asynchronous callback per
  entry and does not wait for them: the array it returns is still empty when it returns,
  and a nested call's array is still empty when it is spread into the caller's. The model
  gives the paths the walk accepts: those for which \<open>testFiles.push(fullPath)\<close> is
  executed, in this call or in a nested one, once every callback has run, in listing order.
\<close>

fun findKotlinTestFiles :: "string \<Rightarrow> dirent list \<Rightarrow> string list" where
  "findKotlinTestFiles dir [] = []"
| "findKotlinTestFiles dir (Dir name sub # files) =
     (if dir_guard name then findKotlinTestFiles (path_join dir name) sub else [])
     @ findKotlinTestFiles dir files"
| "findKotlinTestFiles dir (BrokenDir name # files) = findKotlinTestFiles dir files"
| "findKotlinTestFiles dir (File name content # files) =
     (if name_guard name then
        (case content of
           None \<Rightarrow> []
         | Some text \<Rightarrow> if content_guard text then [path_join dir name] else [])
      else [])
     @ findKotlinTestFiles dir files"
| "findKotlinTestFiles dir (Other name # files) = findKotlinTestFiles dir files"


section \<open>The run handler\<close>

text \<open>
  The handler only reads test items. What it can observe of an item is its id, its
  children (items again) and the ids met when following \<open>parent\<close> links upward; an
  item is modelled by exactly that: the ids along its parent chain, nearest first, and
  the tree below it.
\<close>

datatype tree = Node (node_id: string) (node_children: "tree list")

datatype item = Item (parent_ids: "string list") (item_tree: tree)

definition item_id :: "item \<Rightarrow> string" where
  "item_id t = node_id (item_tree t)"

definition item_children :: "item \<Rightarrow> item list" where
  "item_children t = map (Item (item_id t # parent_ids t)) (node_children (item_tree t))"

text \<open>\<open>isAncestorOf\<close>: the loop \<open>while (curr.parent)\<close>, comparing \<open>curr.parent.id\<close> with
  \<open>ancestor.id\<close>.\<close>

fun parent_walk :: "string \<Rightarrow> string list \<Rightarrow> bool" where
  "parent_walk ancestor [] = False"
| "parent_walk ancestor (p # ps) = (if p = ancestor then True else parent_walk ancestor ps)"

definition isAncestorOf :: "item \<Rightarrow> item \<Rightarrow> bool" where
  "isAncestorOf ancestor descendant = parent_walk (item_id ancestor) (parent_ids descendant)"

record request =
  req_include :: "item list option"
  req_exclude :: "item list option"

text \<open>\<open>request.exclude?.some(excludedTest => this.isAncestorOf(excludedTest, test))\<close>\<close>

definition excluded :: "request \<Rightarrow> item \<Rightarrow> bool" where
  "excluded req test =
     (case req_exclude req of
        None \<Rightarrow> False
      | Some ex \<Rightarrow> list_ex (\<lambda>excludedTest. isAncestorOf excludedTest test) ex)"

text \<open>
  The environment of a run: \<open>workspace.workspaceFolders\<close> (the folders' paths, or
  \<open>None\<close> when no folder is open) and \<open>fsExists\<close>, which is defined outside the given
  sources and is a parameter here.
\<close>

record env =
  workspaceFolders :: "string list option"
  fsExists :: "string \<Rightarrow> bool"

datatype error =
    NoWorkspaceFolder
  | UndefinedFolder
  | OnlyGradle

text \<open>The text of \<open>new TestMessage(`Test execution failed: ${err}`)\<close>. \<open>UndefinedFolder\<close>
  is the \<open>TypeError\<close> of reading \<open>workspaceFolders[0].uri\<close> from an empty array.\<close>

fun message :: "error \<Rightarrow> string" where
  "message NoWorkspaceFolder = ''Test execution failed: Error: No workspace folder found!''"
| "message UndefinedFolder =
     ''Test execution failed: TypeError: Cannot read properties of undefined (reading 'uri')''"
| "message OnlyGradle =
     ''Test execution failed: Error: Error running tests: Only Gradle workspaces are supported for now!''"

datatype event =
    Started string
  | Passed string
  | Failed string string
  | CreateTerminal
  | SendText string
  | RunEnd

text \<open>\<open>const [testClass, testMethod] = test.id.split("#")\<close>\<close>

definition selector :: "string \<Rightarrow> string \<times> string option" where
  "selector testId =
     (case split_on CHR ''#'' testId of
        [] \<Rightarrow> ([], None)
      | testClass # rest \<Rightarrow> (testClass, case rest of [] \<Rightarrow> None | testMethod # _ \<Rightarrow> Some testMethod))"

text \<open>The command line sent to the terminal; an undefined or empty \<open>testMethod\<close> is falsy.\<close>

definition gradle_command :: "string \<times> string option \<Rightarrow> string" where
  "gradle_command sel =
     ''./gradlew test --tests '' @ fst sel @
       (case snd sel of
          None \<Rightarrow> []
        | Some testMethod \<Rightarrow> if testMethod = [] then [] else ''.'' @ testMethod)"

text \<open>The body of the \<open>try\<close> for one leaf, with its \<open>catch\<close>.\<close>

definition dispatch :: "env \<Rightarrow> item \<Rightarrow> event list" where
  "dispatch e test =
     Started (item_id test) #
     (case workspaceFolders e of
        None \<Rightarrow> [Failed (item_id test) (message NoWorkspaceFolder)]
      | Some [] \<Rightarrow> [Failed (item_id test) (message UndefinedFolder)]
      | Some (workspaceRoot # _) \<Rightarrow>
          (let hasGradleFile =
                 (fsExists e (path_join workspaceRoot ''build.gradle'') \<or>
                  fsExists e (path_join workspaceRoot ''build.gradle.kts''))
           in CreateTerminal #
              (if hasGradleFile
               then [SendText (gradle_command (selector (item_id test))), Passed (item_id test)]
               else [Failed (item_id test) (message OnlyGradle)])))"

fun tree_size :: "tree \<Rightarrow> nat" where
  "tree_size (Node i ts) = Suc (sum_list (map tree_size ts))"

definition queue_size :: "item list \<Rightarrow> nat" where
  "queue_size queue = sum_list (map (\<lambda>t. tree_size (item_tree t)) queue)"

lemma queue_size_children: "queue_size (item_children t) < tree_size (item_tree t)"
  by (cases t, cases "item_tree t")
     (simp add: queue_size_def item_children_def comp_def)

text \<open>
  The queue loop. \<open>token k\<close> is the value of \<open>token.isCancellationRequested\<close> at the
  \<open>k\<close>-th test of the loop condition.
\<close>

function run_loop :: "env \<Rightarrow> request \<Rightarrow> (nat \<Rightarrow> bool) \<Rightarrow> nat \<Rightarrow> item list \<Rightarrow> event list" where
  "run_loop e req token k [] = []"
| "run_loop e req token k (test # queue) =
     (if token k then []
      else if excluded req test then run_loop e req token (Suc k) queue
      else if node_children (item_tree test) \<noteq> []
        then run_loop e req token (Suc k) (queue @ item_children test)
      else dispatch e test @ run_loop e req token (Suc k) queue)"
  by pat_completeness auto
termination
proof (relation "measure (\<lambda>(e, req, token, k, queue). queue_size queue)")
  fix e :: env and req :: request and token :: "nat \<Rightarrow> bool" and k :: nat
    and test :: item and queue :: "item list"
  have pos: "0 < tree_size (item_tree test)" by (cases "item_tree test") simp
  show "((e, req, token, Suc k, queue), (e, req, token, k, test # queue))
          \<in> measure (\<lambda>(e, req, token, k, queue). queue_size queue)"
    using pos by (simp add: queue_size_def)
  show "((e, req, token, Suc k, queue @ item_children test), (e, req, token, k, test # queue))
          \<in> measure (\<lambda>(e, req, token, k, queue). queue_size queue)"
    using queue_size_children[of test] by (simp add: queue_size_def)
  show "((e, req, token, Suc k, queue), (e, req, token, k, test # queue))
          \<in> measure (\<lambda>(e, req, token, k, queue). queue_size queue)"
    using pos by (simp add: queue_size_def)
qed simp

text \<open>\<open>runHandler\<close>; \<open>roots\<close> are the items of \<open>testController.items\<close>.\<close>

definition runHandler :: "env \<Rightarrow> item list \<Rightarrow> request \<Rightarrow> (nat \<Rightarrow> bool) \<Rightarrow> event list" where
  "runHandler e roots req token =
     run_loop e req token 0 (case req_include req of Some tests \<Rightarrow> tests | None \<Rightarrow> roots)
     @ [RunEnd]"

section \<open>The test tree store\<close>

text \<open>
  Test items are mutable objects that the two registries and the items' own child
  collections share by reference. The model keeps every item ever created in a heap,
  addressed by its position; a reference is an address. An item holds its id, label and
  file path, its child collection (references, in insertion order) and its parent.
\<close>

record TestItem =
  tid :: string
  tlabel :: string
  turi :: string
  tchildren :: "nat list"
  tparent :: "nat option"

text \<open>The state of \<open>KotlinTestDiscovery\<close>: the heap of items, the root collection
  \<open>testController.items\<close>, and the two maps \<open>testItems\<close> and \<open>fileToTestItemsMap\<close>.\<close>

record store =
  heap :: "TestItem list"
  controller_items :: "nat list"
  testItems :: "string \<Rightarrow> nat option"
  fileToTestItemsMap :: "string \<Rightarrow> nat list option"

definition initial_store :: store where
  "initial_store =
     \<lparr>heap = [], controller_items = [], testItems = (\<lambda>i. None), fileToTestItemsMap = (\<lambda>p. None)\<rparr>"

text \<open>
  \<open>TestItemCollection.delete(id)\<close> and \<open>TestItemCollection.add(item)\<close>, after the
  editor's documented contract: the collection is keyed by id; adding an item whose id
  is already present replaces that entry in place, otherwise the item is appended.
\<close>

definition collection_delete :: "TestItem list \<Rightarrow> nat list \<Rightarrow> string \<Rightarrow> nat list" where
  "collection_delete h items i = filter (\<lambda>k. tid (h ! k) \<noteq> i) items"

definition collection_add :: "TestItem list \<Rightarrow> nat list \<Rightarrow> nat \<Rightarrow> nat list" where
  "collection_add h items c =
     (if list_ex (\<lambda>k. tid (h ! k) = tid (h ! c)) items
      then map (\<lambda>k. if tid (h ! k) = tid (h ! c) then c else k) items
      else items @ [c])"

text \<open>\<open>parent.children.add(child)\<close>: the child joins the parent's collection and its
  \<open>parent\<close> is set.\<close>

definition children_add :: "store \<Rightarrow> nat \<Rightarrow> nat \<Rightarrow> store" where
  "children_add s p c =
     (let h = heap s;
          h1 = h[p := (h ! p)\<lparr>tchildren := collection_add h (tchildren (h ! p)) c\<rparr>]
      in s\<lparr>heap := h1[c := (h1 ! c)\<lparr>tparent := Some p\<rparr>]\<rparr>)"

text \<open>\<open>createTestItem\<close>: a new item without children or parent, registered under its id.\<close>

definition createTestItem :: "store \<Rightarrow> string \<Rightarrow> string \<Rightarrow> string \<Rightarrow> nat \<times> store" where
  "createTestItem s i lbl u =
     (length (heap s),
      s\<lparr>heap := heap s @ [\<lparr>tid = i, tlabel = lbl, turi = u, tchildren = [], tparent = None\<rparr>],
        testItems := (testItems s)(i \<mapsto> length (heap s))\<rparr>)"

definition removeTestsForFile :: "store \<Rightarrow> string \<Rightarrow> store" where
  "removeTestsForFile s filePath =
     (case fileToTestItemsMap s filePath of
        None \<Rightarrow> s
      | Some fileItems \<Rightarrow>
          s\<lparr>controller_items :=
               fold (\<lambda>a items. collection_delete (heap s) items (tid (heap s ! a))) fileItems
                 (controller_items s),
            testItems := fold (\<lambda>a m. m(tid (heap s ! a) := None)) fileItems (testItems s),
            fileToTestItemsMap := (fileToTestItemsMap s)(filePath := None)\<rparr>)"

text \<open>\<open>path.basename\<close> of a file path: its last segment.\<close>

definition basename :: "string \<Rightarrow> string" where
  "basename p = last (split_on CHR ''/'' p)"

definition getOrCreateFileTestItem :: "store \<Rightarrow> string \<Rightarrow> nat \<times> store" where
  "getOrCreateFileTestItem s filePath =
     (let fileId = ''kotlin-test:'' @ filePath in
      case testItems s fileId of
        Some fileItem \<Rightarrow> (fileItem, s)
      | None \<Rightarrow>
          (let (fileItem, s1) = createTestItem s fileId (basename filePath) filePath
           in (fileItem, s1\<lparr>fileToTestItemsMap := (fileToTestItemsMap s1)(filePath \<mapsto> [fileItem])\<rparr>)))"

text \<open>The bodies of the two loops of \<open>resolveTestsInFile\<close>: for a method match, and for
  a class match whose name includes \<open>Test\<close> (the declaration is the class name with the
  method names its text yields).\<close>

definition add_method :: "string \<Rightarrow> nat \<Rightarrow> string \<Rightarrow> store \<Rightarrow> store" where
  "add_method u classItem methodName s =
     (let (methodItem, s1) =
            createTestItem s (tid (heap s ! classItem) @ ''.'' @ methodName) methodName u
      in children_add s1 classItem methodItem)"

definition add_class :: "string \<Rightarrow> nat \<Rightarrow> string \<times> string list \<Rightarrow> store \<Rightarrow> store" where
  "add_class u fileItem decl s =
     (let (classItem, s1) =
            createTestItem s (tid (heap s ! fileItem) @ ''.'' @ fst decl) (fst decl) u;
          s2 = children_add s1 fileItem classItem
      in fold (add_method u classItem) (snd decl) s2)"

text \<open>Creating an item under an existing parent, the step both loops are made of (see
  \<open>add_method_create_child\<close> and \<open>add_class_create_child\<close>).\<close>

definition create_child :: "string \<Rightarrow> nat \<Rightarrow> string \<Rightarrow> store \<Rightarrow> store" where
  "create_child u p name s =
     children_add (snd (createTestItem s (tid (heap s ! p) @ ''.'' @ name) name u)) p (length (heap s))"

text \<open>The part of \<open>resolveTestsInFile\<close> that follows the read of the file: the file item
  is looked up or created, and the class and method items of the content are added.\<close>

definition rebuild :: "store \<Rightarrow> string \<Rightarrow> string \<Rightarrow> store" where
  "rebuild s filePath content =
     (let (fileItem, s2) = getOrCreateFileTestItem s filePath
      in fold (add_class filePath fileItem) (scanDeclarations content) s2)"

text \<open>
  \<open>resolveTestsInFile\<close>. \<open>readFile\<close> is the file system at the time of the call:
  the content of a path, or \<open>None\<close> when the read fails (the exception is caught and
  logged, after the removal has already happened).
\<close>

definition resolveTestsInFile :: "(string \<Rightarrow> string option) \<Rightarrow> store \<Rightarrow> string option \<Rightarrow> store" where
  "resolveTestsInFile readFile s uri =
     (case uri of
        None \<Rightarrow> s
      | Some filePath \<Rightarrow>
          if \<not> endsWith filePath ''.kt'' \<and> \<not> endsWith filePath ''.kts'' then s
          else
            (let s1 = removeTestsForFile s filePath in
             case readFile filePath of
               None \<Rightarrow> s1
             | Some content \<Rightarrow> rebuild s1 filePath content))"

text \<open>
  \<open>discoverAllTests\<close>: the three registries are emptied, then every workspace folder
  (its path and listing) is walked and each accepted file resolved. The source does
  not wait for the walks and iterates the arrays they return while these are still
  empty; the model resolves every accepted file, in order, which reaches every state
  the source can reach and more.
\<close>

definition discoverAllTests ::
  "(string \<Rightarrow> string option) \<Rightarrow> (string \<times> dirent list) list option \<Rightarrow> store \<Rightarrow> store" where
  "discoverAllTests readFile folders s =
     (let s0 = s\<lparr>controller_items :=
                    fold (\<lambda>a items. collection_delete (heap s) items (tid (heap s ! a)))
                      (controller_items s) (controller_items s),
                  testItems := (\<lambda>i. None),
                  fileToTestItemsMap := (\<lambda>p. None)\<rparr>
      in case folders of
           None \<Rightarrow> s0
         | Some fs \<Rightarrow>
             fold (\<lambda>folder st.
                     fold (\<lambda>file st1. resolveTestsInFile readFile st1 (Some file))
                       (findKotlinTestFiles (fst folder) (snd folder)) st)
               fs s0)"

text \<open>
  The states the discovery can be in: any sequence of the three operations, on any
  file system, from the state the constructor leaves. \<open>resolveTestsInFile\<close> suspends
  while the file is read, after the removal and before the rebuilding, and other calls
  can run in between; so the rebuilding is a step of its own, as the removal is.
\<close>

inductive reachable :: "store \<Rightarrow> bool" where
  initial: "reachable initial_store"
| discover: "reachable s \<Longrightarrow> reachable (discoverAllTests readFile folders s)"
| resolve: "reachable s \<Longrightarrow> reachable (resolveTestsInFile readFile s uri)"
| remove: "reachable s \<Longrightarrow> reachable (removeTestsForFile s filePath)"
| rebuild: "reachable s \<Longrightarrow> reachable (rebuild s filePath content)"

text \<open>The invariant of the store: registered references point into the heap, and every
  child's id is its parent's id, a dot and the child's label.\<close>

definition store_inv :: "store \<Rightarrow> bool" where
  "store_inv s =
     ((\<forall>i a. testItems s i = Some a \<longrightarrow> a < length (heap s)) \<and>
      (\<forall>p < length (heap s). \<forall>c \<in> set (tchildren (heap s ! p)).
          c < length (heap s) \<and> tid (heap s ! c) = tid (heap s ! p) @ ''.'' @ tlabel (heap s ! c)))"

text \<open>What the store holds below an item, unfolded to depth \<open>n\<close>: ids and children.\<close>

fun subtree :: "TestItem list \<Rightarrow> nat \<Rightarrow> nat \<Rightarrow> tree" where
  "subtree h 0 a = Node (tid (h ! a)) []"
| "subtree h (Suc n) a = Node (tid (h ! a)) (map (subtree h n) (tchildren (h ! a)))"

text \<open>The subtrees the file index attributes to a path.\<close>

definition path_trees :: "store \<Rightarrow> string \<Rightarrow> nat \<Rightarrow> tree list" where
  "path_trees s filePath n =
     (case fileToTestItemsMap s filePath of
        None \<Rightarrow> []
      | Some fileItems \<Rightarrow> map (subtree (heap s) n) fileItems)"


section \<open>The tree of a file\<close>

text \<open>
  The tree a file's declarations determine, written without a store: child collections
  are keyed by id, so a later declaration with an id already present takes the earlier
  one's place. \<open>cut n\<close> keeps the first \<open>n\<close> levels below the root, as \<open>subtree\<close> does.
\<close>

fun cut :: "nat \<Rightarrow> tree \<Rightarrow> tree" where
  "cut 0 (Node i ts) = Node i []"
| "cut (Suc n) (Node i ts) = Node i (map (cut n) ts)"

definition upsert_tree :: "tree \<Rightarrow> tree list \<Rightarrow> tree list" where
  "upsert_tree t ts =
     (if list_ex (\<lambda>x. node_id x = node_id t) ts
      then map (\<lambda>x. if node_id x = node_id t then t else x) ts
      else ts @ [t])"

definition class_tree :: "string \<Rightarrow> string list \<Rightarrow> tree" where
  "class_tree classId methodNames =
     Node classId (fold (\<lambda>m. upsert_tree (Node (classId @ ''.'' @ m) [])) methodNames [])"

definition file_tree :: "string \<Rightarrow> (string \<times> string list) list \<Rightarrow> tree" where
  "file_tree fileId decls =
     Node fileId
       (fold (\<lambda>d. upsert_tree (class_tree (fileId @ ''.'' @ fst d) (snd d))) decls [])"

text \<open>
  \<open>repr h lo hi par a t\<close>: in heap \<open>h\<close> the item at \<open>a\<close> has parent \<open>par\<close> and the ids and
  children of the tree \<open>t\<close>, every item of it lying in the address range from \<open>lo\<close> up
  to, not including, \<open>hi\<close>, and every child's \<open>parent\<close> being the item it hangs under.
\<close>

fun repr :: "TestItem list \<Rightarrow> nat \<Rightarrow> nat \<Rightarrow> nat option \<Rightarrow> nat \<Rightarrow> tree \<Rightarrow> bool" where
  "repr h lo hi par a (Node i ts) =
     (lo \<le> a \<and> a < hi \<and> tid (h ! a) = i \<and> tparent (h ! a) = par \<and>
      list_all2 (repr h lo hi (Some a)) (tchildren (h ! a)) ts)"

text \<open>
  The two loop invariants of a scan. \<open>file_built\<close>: the file item is registered under
  its id and its children represent the class trees \<open>ks\<close>. \<open>class_built\<close>: in the middle
  of a class, whose item \<open>c\<close> is already among the file's children; the children of \<open>c\<close>
  represent the method leaves \<open>ls\<close>, and the other children of the file lie below \<open>c\<close>.
\<close>

definition file_built :: "store \<Rightarrow> nat \<Rightarrow> string \<Rightarrow> tree list \<Rightarrow> bool" where
  "file_built s f fileId ks =
     (f < length (heap s) \<and> tid (heap s ! f) = fileId \<and> testItems s fileId = Some f \<and>
      list_all2 (repr (heap s) (Suc f) (length (heap s)) (Some f)) (tchildren (heap s ! f)) ks)"

definition class_built ::
  "store \<Rightarrow> nat \<Rightarrow> string \<Rightarrow> nat \<Rightarrow> string \<Rightarrow> tree list \<Rightarrow> tree list \<Rightarrow> bool" where
  "class_built s f fileId c classId ks ls =
     (f < c \<and> c < length (heap s) \<and> tid (heap s ! f) = fileId \<and> testItems s fileId = Some f \<and>
      tid (heap s ! c) = classId \<and> tparent (heap s ! c) = Some f \<and> length fileId \<le> length classId \<and>
      list_all2 (\<lambda>k t. if k = c then node_id t = classId
                        else node_id t \<noteq> classId \<and> repr (heap s) (Suc f) c (Some f) k t)
        (tchildren (heap s ! f)) ks \<and>
      list_all2 (repr (heap s) (Suc c) (length (heap s)) (Some c)) (tchildren (heap s ! c)) ls)"


section \<open>Reading runs\<close>

text \<open>Reading a run's events.\<close>

fun started_ids :: "event list \<Rightarrow> string list" where
  "started_ids [] = []"
| "started_ids (Started i # evs) = i # started_ids evs"
| "started_ids (ev # evs) = started_ids evs"

fun is_invocation :: "event \<Rightarrow> bool" where
  "is_invocation CreateTerminal = True"
| "is_invocation (SendText c) = True"
| "is_invocation ev = False"

fun is_failure :: "event \<Rightarrow> bool" where
  "is_failure (Failed i m) = True"
| "is_failure ev = False"

text \<open>
  The leaves a selection expands to, written on the trees and not on the queue: an item
  the exclusion test drops contributes nothing, an item without children is a leaf, and
  any other item contributes the leaves of its children. \<open>run_queue\<close> is what seeds the
  queue: the included items or, without an include list, the roots.
\<close>

fun leaves_below :: "request \<Rightarrow> string list \<Rightarrow> tree \<Rightarrow> string list" where
  "leaves_below req ps (Node i ts) =
     (if excluded req (Item ps (Node i ts)) then []
      else if ts = [] then [i]
      else concat (map (leaves_below req (i # ps)) ts))"

definition selected_leaves :: "request \<Rightarrow> item \<Rightarrow> string list" where
  "selected_leaves req t = leaves_below req (parent_ids t) (item_tree t)"

definition run_queue :: "item list \<Rightarrow> request \<Rightarrow> item list" where
  "run_queue roots req = (case req_include req of Some tests \<Rightarrow> tests | None \<Rightarrow> roots)"

text \<open>
  No workspace root to run in: \<open>workspace.workspaceFolders\<close> is undefined, or it is an
  empty array. \<open>root_error\<close> is the error the body of the \<open>try\<close> then throws, and
  \<open>no_root_outcome\<close> what a leaf contributes to the run.
\<close>

definition root_error :: "env \<Rightarrow> error option" where
  "root_error e =
     (case workspaceFolders e of
        None \<Rightarrow> Some NoWorkspaceFolder
      | Some [] \<Rightarrow> Some UndefinedFolder
      | Some (workspaceRoot # _) \<Rightarrow> None)"

definition no_root_outcome :: "error \<Rightarrow> string \<Rightarrow> event list" where
  "no_root_outcome err i = [Started i, Failed i (message err)]"


section \<open>Sample inputs\<close>

text \<open>The tree \<open>File > Class > {methodA, methodB}\<close> of \<open>/w/FooTest.kt\<close>, as items.\<close>

definition sample_class :: tree where
  "sample_class = Node ''kotlin-test:/w/FooTest.kt.FooTest''
     [Node ''kotlin-test:/w/FooTest.kt.FooTest.methodA'' [],
      Node ''kotlin-test:/w/FooTest.kt.FooTest.methodB'' []]"

definition sample_class_item :: item where
  "sample_class_item = Item [''kotlin-test:/w/FooTest.kt''] sample_class"

definition sample_methodA_item :: item where
  "sample_methodA_item =
     Item [''kotlin-test:/w/FooTest.kt.FooTest'', ''kotlin-test:/w/FooTest.kt'']
       (Node ''kotlin-test:/w/FooTest.kt.FooTest.methodA'' [])"

text \<open>A workspace \<open>/w\<close> with a \<open>build.gradle\<close>, and no workspace at all.\<close>

definition gradle_env :: env where
  "gradle_env = \<lparr>workspaceFolders = Some [''/w''], fsExists = (\<lambda>p. p = ''/w/build.gradle'')\<rparr>"

definition no_folder_env :: env where
  "no_folder_env = \<lparr>workspaceFolders = None, fsExists = (\<lambda>p. False)\<rparr>"

text \<open>A token that is never cancelled.\<close>

definition never :: "nat \<Rightarrow> bool" where
  "never k = False"


text \<open>A test class with a nested test class, and a class whose body is never closed.\<close>

definition nested_content :: string where
  "nested_content = ''class OuterTest { class InnerTest { @Test fun innerCase() {} } }''"

definition unclosed_content :: string where
  "unclosed_content = ''class FooTest { @Test fun a() { if (x) { y() }''"


text \<open>A file system with one test file, and the store after resolving it once.\<close>

definition sample_readFile :: "string \<Rightarrow> string option" where
  "sample_readFile p =
     (if p = ''/w/FooTest.kt''
      then Some ''import org.junit.Test class FooTest { @Test fun testBar() {} @Test fun testBaz() {} }''
      else None)"

definition sample_store :: store where
  "sample_store = resolveTestsInFile sample_readFile initial_store (Some ''/w/FooTest.kt'')"


text \<open>The store after the file item of the sample file has been created.\<close>

definition sample_file_store :: store where
  "sample_file_store =
     \<lparr>heap = [\<lparr>tid = ''kotlin-test:/w/FooTest.kt'', tlabel = ''FooTest.kt'', turi = ''/w/FooTest.kt'',
                tchildren = [], tparent = None\<rparr>],
      controller_items = [],
      testItems = [''kotlin-test:/w/FooTest.kt'' \<mapsto> 0],
      fileToTestItemsMap = [''/w/FooTest.kt'' \<mapsto> [0]]\<rparr>"


section \<open>The selector of a dispatched leaf\<close>

lemma split_on_absent: "sep \<notin> set s \<Longrightarrow> split_on sep s = [s]"
  by (induction s) auto

lemma selector_without_hash: "CHR ''#'' \<notin> set testId \<Longrightarrow> selector testId = (testId, None)"
  by (simp add: selector_def split_on_absent)

text \<open>
  C1. The claim: the selector handed to the build tool is the declared class name and
  the declared method name, recovered from the leaf's id by splitting on the separator.
  The ids are built with \<open>.\<close> between file, class and method, but the handler splits
  on \<open>#\<close>: for the method \<open>testBar\<close> of class \<open>FooTest\<close> in \<open>/w/FooTest.kt\<close> the
  command names the whole id as the class and no method.
\<close>

theorem selector_is_whole_id:
  "dispatch gradle_env
     (Item [''kotlin-test:/w/FooTest.kt.FooTest'', ''kotlin-test:/w/FooTest.kt'']
        (Node ''kotlin-test:/w/FooTest.kt.FooTest.testBar'' []))
   = [Started ''kotlin-test:/w/FooTest.kt.FooTest.testBar'',
      CreateTerminal,
      SendText ''./gradlew test --tests kotlin-test:/w/FooTest.kt.FooTest.testBar'',
      Passed ''kotlin-test:/w/FooTest.kt.FooTest.testBar'']"
  by (simp add: dispatch_def gradle_env_def selector_def gradle_command_def item_id_def
      path_join_def)


section \<open>Exclusion\<close>

lemma parent_walk_iff: "parent_walk a ps \<longleftrightarrow> a \<in> set ps"
  by (induction ps) auto

lemma excluded_iff:
  "excluded req test \<longleftrightarrow>
     (\<exists>ex x. req_exclude req = Some ex \<and> x \<in> set ex \<and> item_id x \<in> set (parent_ids test))"
  by (auto simp: excluded_def isAncestorOf_def parent_walk_iff list_ex_iff split: option.splits)

text \<open>
  C3. The claim: a node equal to an excluded node, or below one, is dropped, so that
  including \<open>Class\<close> and excluding \<open>methodA\<close> dispatches exactly \<open>methodB\<close>.
  \<open>isAncestorOf\<close> starts its walk at the candidate's parent, so the excluded node itself
  is never dropped: the run dispatches \<open>methodA\<close> as well.
\<close>

theorem excluded_method_is_dispatched:
  "started_ids
     (runHandler gradle_env []
        \<lparr>req_include = Some [sample_class_item], req_exclude = Some [sample_methodA_item]\<rparr> never)
   = [''kotlin-test:/w/FooTest.kt.FooTest.methodA'', ''kotlin-test:/w/FooTest.kt.FooTest.methodB'']"
  by (simp add: runHandler_def sample_class_item_def sample_class_def sample_methodA_item_def
      never_def excluded_def isAncestorOf_def item_id_def item_children_def dispatch_def
      gradle_env_def)


section \<open>A run without a workspace folder\<close>

lemma started_ids_append: "started_ids (xs @ ys) = started_ids xs @ started_ids ys"
  by (induction xs rule: started_ids.induct) auto

lemma selected_leaves_unfold:
  "selected_leaves req t =
     (if excluded req t then []
      else if node_children (item_tree t) = [] then [item_id t]
      else concat (map (selected_leaves req) (item_children t)))"
proof (cases t)
  case (Item ps tr)
  then show ?thesis
    by (cases tr) (simp add: selected_leaves_def item_children_def item_id_def comp_def)
qed

lemma started_ids_dispatch: "started_ids (dispatch e test) = [item_id test]"
  by (simp add: dispatch_def Let_def split: option.splits list.splits)

lemma dispatch_no_root:
  "root_error e = Some err \<Longrightarrow> dispatch e test = no_root_outcome err (item_id test)"
  by (auto simp: root_error_def dispatch_def no_root_outcome_def split: option.splits list.splits)

lemma run_loop_started_sub:
  "mset (started_ids (run_loop e req token k queue))
     \<subseteq># mset (concat (map (selected_leaves req) queue))"
proof (induction e req token k queue rule: run_loop.induct)
  case (1 e req token k)
  show ?case by simp
next
  case (2 e req token k test queue)
  show ?case
  proof (cases "token k")
    case True
    then show ?thesis by simp
  next
    case nt: False
    show ?thesis
    proof (cases "excluded req test")
      case True
      with nt "2.IH"(1) show ?thesis by (simp add: selected_leaves_unfold[of req test])
    next
      case ne: False
      show ?thesis
      proof (cases "node_children (item_tree test) \<noteq> []")
        case True
        with nt ne "2.IH"(2) show ?thesis
          by (simp add: selected_leaves_unfold[of req test] ac_simps)
      next
        case False
        with nt ne "2.IH"(3) show ?thesis
          by (simp add: selected_leaves_unfold[of req test] started_ids_append started_ids_dispatch)
      qed
    qed
  qed
qed

lemma run_loop_started_all:
  assumes "\<forall>k. \<not> token k"
  shows "mset (started_ids (run_loop e req token k queue))
           = mset (concat (map (selected_leaves req) queue))"
  using assms
proof (induction e req token k queue rule: run_loop.induct)
  case (1 e req token k)
  show ?case by simp
next
  case (2 e req token k test queue)
  from "2.prems" have nt: "\<not> token k" by simp
  show ?case
  proof (cases "excluded req test")
    case True
    with nt "2.IH"(1) "2.prems" show ?thesis by (simp add: selected_leaves_unfold[of req test])
  next
    case ne: False
    show ?thesis
    proof (cases "node_children (item_tree test) \<noteq> []")
      case True
      with nt ne "2.IH"(2) "2.prems" show ?thesis
        by (simp add: selected_leaves_unfold[of req test] ac_simps)
    next
      case False
      with nt ne "2.IH"(3) "2.prems" show ?thesis
        by (simp add: selected_leaves_unfold[of req test] started_ids_append started_ids_dispatch)
    qed
  qed
qed

lemma run_loop_no_root:
  assumes "root_error e = Some err"
  shows "run_loop e req token k queue
           = concat (map (no_root_outcome err) (started_ids (run_loop e req token k queue)))"
  using assms
proof (induction e req token k queue rule: run_loop.induct)
  case (1 e req token k)
  show ?case by simp
next
  case (2 e req token k test queue)
  have d: "dispatch e test = no_root_outcome err (item_id test)"
    using "2.prems" by (rule dispatch_no_root)
  have s: "started_ids (no_root_outcome err (item_id test)) = [item_id test]"
    by (simp add: no_root_outcome_def)
  show ?case
  proof (cases "token k")
    case True
    then show ?thesis by simp
  next
    case nt: False
    show ?thesis
    proof (cases "excluded req test")
      case True
      with nt "2.IH"(1) "2.prems" show ?thesis by simp
    next
      case ne: False
      show ?thesis
      proof (cases "node_children (item_tree test) \<noteq> []")
        case True
        with nt ne "2.IH"(2) "2.prems" show ?thesis by simp
      next
        case False
        with nt ne "2.IH"(3) "2.prems" have
          ih: "run_loop e req token (Suc k) queue
             = concat (map (no_root_outcome err) (started_ids (run_loop e req token (Suc k) queue)))"
          by simp
        from False nt ne have
          "run_loop e req token k (test # queue)
             = no_root_outcome err (item_id test) @ run_loop e req token (Suc k) queue"
          by (simp add: d)
        with ih show ?thesis by (simp add: started_ids_append s)
      qed
    qed
  qed
qed

text \<open>
  C4, as claimed: a run without a workspace folder yields exactly one failure, marks
  no item started and invokes the build tool zero times. The check for the folder sits
  inside the per-leaf \<open>try\<close>, after \<open>run.started(test)\<close>: with the two leaves of the
  sample class the run marks both started and reports two failures.
\<close>

theorem no_folder_two_failures:
  "length (filter is_failure
     (runHandler no_folder_env [] \<lparr>req_include = Some [sample_class_item], req_exclude = None\<rparr> never)) = 2
   \<and> started_ids
     (runHandler no_folder_env [] \<lparr>req_include = Some [sample_class_item], req_exclude = None\<rparr> never)
     = [''kotlin-test:/w/FooTest.kt.FooTest.methodA'', ''kotlin-test:/w/FooTest.kt.FooTest.methodB'']"
  by (simp add: runHandler_def sample_class_item_def sample_class_def never_def
      excluded_def item_id_def item_children_def dispatch_def no_folder_env_def)

text \<open>
  C4, amended: when no workspace root is open, the run consists of one pair per
  dispatched leaf, \<open>started\<close> followed by a failure, and of the end of the run; no
  terminal is created and no command is sent. The failure carries the message
  \<open>Test execution failed: Error: No workspace folder found!\<close> when
  \<open>workspaceFolders\<close> is undefined, and the text of the \<open>TypeError\<close> when it is an
  empty array. The dispatched leaves are leaves the selection expands to, each at most
  as often as it occurs there; when the run is not cancelled they are all of them.
\<close>

theorem no_root_run:
  assumes "root_error e = Some err"
  shows "runHandler e roots req token
           = concat (map (no_root_outcome err) (started_ids (runHandler e roots req token))) @ [RunEnd]
         \<and> filter is_invocation (runHandler e roots req token) = []
         \<and> mset (started_ids (runHandler e roots req token))
             \<subseteq># mset (concat (map (selected_leaves req) (run_queue roots req)))
         \<and> ((\<forall>k. \<not> token k) \<longrightarrow>
              mset (started_ids (runHandler e roots req token))
                = mset (concat (map (selected_leaves req) (run_queue roots req))))"
proof -
  let ?q = "run_queue roots req"
  have r: "runHandler e roots req token = run_loop e req token 0 ?q @ [RunEnd]"
    by (simp add: runHandler_def run_queue_def)
  have l: "run_loop e req token 0 ?q
           = concat (map (no_root_outcome err) (started_ids (run_loop e req token 0 ?q)))"
    using assms by (rule run_loop_no_root)
  have f: "filter is_invocation (concat (map (no_root_outcome err) ids)) = []" for ids
    by (induction ids) (simp_all add: no_root_outcome_def)
  have st: "started_ids (runHandler e roots req token) = started_ids (run_loop e req token 0 ?q)"
    by (simp add: r started_ids_append)
  have 1: "runHandler e roots req token
           = concat (map (no_root_outcome err) (started_ids (runHandler e roots req token))) @ [RunEnd]"
    unfolding st using l by (simp add: r)
  have "filter is_invocation (run_loop e req token 0 ?q) = []"
    by (subst l) (rule f)
  then have 2: "filter is_invocation (runHandler e roots req token) = []"
    by (simp add: r)
  have 3: "mset (started_ids (runHandler e roots req token))
             \<subseteq># mset (concat (map (selected_leaves req) ?q))"
    unfolding st by (rule run_loop_started_sub)
  have 4: "mset (started_ids (runHandler e roots req token))
             = mset (concat (map (selected_leaves req) ?q))" if "\<forall>k. \<not> token k"
    unfolding st using that by (rule run_loop_started_all)
  from 1 2 3 4 show ?thesis by blast
qed

theorem no_root_run_witness:
  "root_error no_folder_env = Some NoWorkspaceFolder
   \<and> (\<forall>k. \<not> never k)
   \<and> concat (map (selected_leaves \<lparr>req_include = Some [sample_class_item], req_exclude = None\<rparr>)
        (run_queue [] \<lparr>req_include = Some [sample_class_item], req_exclude = None\<rparr>))
      = [''kotlin-test:/w/FooTest.kt.FooTest.methodA'', ''kotlin-test:/w/FooTest.kt.FooTest.methodB'']
   \<and> mset (started_ids
        (runHandler no_folder_env [] \<lparr>req_include = Some [sample_class_item], req_exclude = None\<rparr> never))
      = mset [''kotlin-test:/w/FooTest.kt.FooTest.methodA'', ''kotlin-test:/w/FooTest.kt.FooTest.methodB'']
   \<and> runHandler no_folder_env [] \<lparr>req_include = Some [sample_class_item], req_exclude = None\<rparr> never
     = [Started ''kotlin-test:/w/FooTest.kt.FooTest.methodA'',
        Failed ''kotlin-test:/w/FooTest.kt.FooTest.methodA''
          ''Test execution failed: Error: No workspace folder found!'',
        Started ''kotlin-test:/w/FooTest.kt.FooTest.methodB'',
        Failed ''kotlin-test:/w/FooTest.kt.FooTest.methodB''
          ''Test execution failed: Error: No workspace folder found!'',
        RunEnd]"
proof -
  let ?req = "\<lparr>req_include = Some [sample_class_item], req_exclude = None\<rparr>"
  have h: "root_error no_folder_env = Some NoWorkspaceFolder"
    by (simp add: root_error_def no_folder_env_def)
  have n: "\<forall>k. \<not> never k" by (simp add: never_def)
  have lv: "concat (map (selected_leaves ?req) (run_queue [] ?req))
      = [''kotlin-test:/w/FooTest.kt.FooTest.methodA'', ''kotlin-test:/w/FooTest.kt.FooTest.methodB'']"
    by (simp add: run_queue_def selected_leaves_def sample_class_item_def sample_class_def
        excluded_def)
  have s: "started_ids (runHandler no_folder_env [] ?req never)
    = [''kotlin-test:/w/FooTest.kt.FooTest.methodA'', ''kotlin-test:/w/FooTest.kt.FooTest.methodB'']"
    by (simp add: runHandler_def sample_class_item_def sample_class_def never_def
      excluded_def item_id_def item_children_def dispatch_def no_folder_env_def)
  note t = no_root_run[OF h, of "[]" ?req never]
  from t n have m: "mset (started_ids (runHandler no_folder_env [] ?req never))
      = mset (concat (map (selected_leaves ?req) (run_queue [] ?req)))" by blast
  from t have "runHandler no_folder_env [] ?req never
      = concat (map (no_root_outcome NoWorkspaceFolder)
          (started_ids (runHandler no_folder_env [] ?req never))) @ [RunEnd]" by blast
  then have r: "runHandler no_folder_env [] ?req never
     = [Started ''kotlin-test:/w/FooTest.kt.FooTest.methodA'',
        Failed ''kotlin-test:/w/FooTest.kt.FooTest.methodA''
          ''Test execution failed: Error: No workspace folder found!'',
        Started ''kotlin-test:/w/FooTest.kt.FooTest.methodB'',
        Failed ''kotlin-test:/w/FooTest.kt.FooTest.methodB''
          ''Test execution failed: Error: No workspace folder found!'',
        RunEnd]"
    unfolding s by (simp add: no_root_outcome_def)
  from m have m': "mset (started_ids (runHandler no_folder_env [] ?req never))
      = mset [''kotlin-test:/w/FooTest.kt.FooTest.methodA'', ''kotlin-test:/w/FooTest.kt.FooTest.methodB'']"
    unfolding lv .
  from h n lv m' r show ?thesis by blast
qed


section \<open>The file classifier and the walk\<close>

lemma endsWith_suffix: "endsWith s p \<longleftrightarrow> suffix p s"
  by (simp add: endsWith_def suffix_to_prefix)

text \<open>
  C5. The claim: a file is accepted only if it has one of the two extensions and its
  name contains \<open>Test\<close> and its content holds a marker. In the name test \<open>&&\<close> binds
  tighter than \<open>||\<close>, so the \<open>Test\<close> condition guards \<open>.kts\<close> files only: \<open>Foo.kt\<close>,
  whose name has no \<open>Test\<close>, is accepted.
\<close>

theorem kt_file_without_test_name_accepted:
  "findKotlinTestFiles ''/w'' [File ''Foo.kt'' (Some ''@Test fun a() {}'')] = [''/w/Foo.kt'']"
  by (simp add: name_guard_def content_guard_def endsWith_def path_join_def)

text \<open>
  C6. The claim: the walk skips build-output directories and descends into every
  other subdirectory, hidden ones included. The guard asks for a name that starts with
  a dot, so only hidden directories are entered: the test file under \<open>src\<close> is never
  read, the one under \<open>.idea\<close> is read and accepted.
\<close>

theorem only_hidden_directories_entered:
  "findKotlinTestFiles ''/w''
     [Dir ''src'' [File ''FooTest.kt'' (Some ''@Test fun a() {}'')],
      Dir ''.idea'' [File ''BarTest.kt'' (Some ''@Test fun b() {}'')],
      Dir ''build'' [File ''BazTest.kt'' (Some ''@Test fun c() {}'')]]
   = [''/w/.idea/BarTest.kt'']"
  by (simp add: name_guard_def content_guard_def endsWith_def path_join_def dir_guard_def
      startsWith_def)


section \<open>The extent of a class body\<close>

lemma indexOf_first: "x \<notin> set pre \<Longrightarrow> indexOf (pre @ x # t) x = Some (length pre)"
  by (induction pre) auto

lemma brace_loop_open:
  assumes "\<forall>k \<le> length ys. closes (take k ys) < n + opens (take k ys)"
  shows "brace_loop (xs @ ys) n (length xs) = length (xs @ ys)"
  using assms
proof (induction ys arbitrary: xs n)
  case Nil
  show ?case by (subst brace_loop.simps) simp
next
  case (Cons c cs)
  from Cons.prems[rule_format, of 0] have n: "0 < n" by (simp add: closes_def opens_def)
  have step: "closes (take k cs) + (if c = CHR ''}'' then 1 else 0)
                < n + opens (take k cs) + (if c = CHR ''{'' then 1 else 0)" if "k \<le> length cs" for k
    using Cons.prems[rule_format, of "Suc k"] that by (auto simp: closes_def opens_def)
  have at: "(xs @ c # cs) ! length xs = c" by simp
  have split: "xs @ c # cs = (xs @ [c]) @ cs" by simp
  have len: "length xs + 1 = length (xs @ [c])" by simp
  consider (op) "c = CHR ''{''" | (cl) "c = CHR ''}''" | (other) "c \<noteq> CHR ''{''" "c \<noteq> CHR ''}''"
    by blast
  then show ?case
  proof cases
    case op
    have "brace_loop ((xs @ [c]) @ cs) (n + 1) (length (xs @ [c])) = length ((xs @ [c]) @ cs)"
      by (rule Cons.IH) (use step op in auto)
    then show ?thesis
      by (subst brace_loop.simps) (simp add: n op)
  next
    case cl
    from step[of 0] cl have n2: "1 < n" by (simp add: closes_def opens_def)
    have "brace_loop ((xs @ [c]) @ cs) (n - 1) (length (xs @ [c])) = length ((xs @ [c]) @ cs)"
      by (rule Cons.IH) (use step cl n2 in \<open>auto simp: less_diff_conv\<close>)
    then show ?thesis
      by (subst brace_loop.simps) (simp add: n cl)
  next
    case other
    have "brace_loop ((xs @ [c]) @ cs) n (length (xs @ [c])) = length ((xs @ [c]) @ cs)"
      by (rule Cons.IH) (use step other in auto)
    then show ?thesis
      by (subst brace_loop.simps) (simp add: n other)
  qed
qed

lemma brace_loop_closed:
  assumes "\<forall>k \<le> length b. closes (take k b) < n + opens (take k b)"
      and "closes b + 1 = n + opens b"
  shows "brace_loop (xs @ b @ CHR ''}'' # rest) n (length xs) = length xs + length b + 1"
  using assms
proof (induction b arbitrary: xs n)
  case Nil
  then have n: "n = 1" by (simp add: closes_def opens_def)
  have "brace_loop (xs @ CHR ''}'' # rest) 0 (length xs + 1) = length xs + 1"
    by (subst brace_loop.simps) simp
  then show ?case
    by (subst brace_loop.simps) (simp add: n)
next
  case (Cons c cs)
  from Cons.prems(1)[rule_format, of 0] have n: "0 < n" by (simp add: closes_def opens_def)
  have step: "closes (take k cs) + (if c = CHR ''}'' then 1 else 0)
                < n + opens (take k cs) + (if c = CHR ''{'' then 1 else 0)" if "k \<le> length cs" for k
    using Cons.prems(1)[rule_format, of "Suc k"] that by (auto simp: closes_def opens_def)
  have total: "closes cs + (if c = CHR ''}'' then 1 else 0) + 1
                = n + opens cs + (if c = CHR ''{'' then 1 else 0)"
    using Cons.prems(2) by (auto simp: closes_def opens_def)
  consider (op) "c = CHR ''{''" | (cl) "c = CHR ''}''" | (other) "c \<noteq> CHR ''{''" "c \<noteq> CHR ''}''"
    by blast
  then show ?case
  proof cases
    case op
    have "brace_loop ((xs @ [c]) @ cs @ CHR ''}'' # rest) (n + 1) (length (xs @ [c]))
            = length (xs @ [c]) + length cs + 1"
      by (rule Cons.IH) (use step total op in auto)
    then have "brace_loop (xs @ c # cs @ CHR ''}'' # rest) (Suc n) (Suc (length xs))
            = Suc (Suc (length xs + length cs))" by simp
    then show ?thesis
      by (subst brace_loop.simps) (simp add: n op)
  next
    case cl
    from step[of 0] cl have n2: "1 < n" by (simp add: closes_def opens_def)
    have "brace_loop ((xs @ [c]) @ cs @ CHR ''}'' # rest) (n - 1) (length (xs @ [c]))
            = length (xs @ [c]) + length cs + 1"
      by (rule Cons.IH) (use step total cl n2 in \<open>auto simp: less_diff_conv\<close>)
    then have "brace_loop (xs @ c # cs @ CHR ''}'' # rest) (n - Suc 0) (Suc (length xs))
            = Suc (Suc (length xs + length cs))" by simp
    then show ?thesis
      by (subst brace_loop.simps) (simp add: n cl)
  next
    case other
    have "brace_loop ((xs @ [c]) @ cs @ CHR ''}'' # rest) n (length (xs @ [c]))
            = length (xs @ [c]) + length cs + 1"
      by (rule Cons.IH) (use step total other in auto)
    then have "brace_loop (xs @ c # cs @ CHR ''}'' # rest) n (Suc (length xs))
            = Suc (Suc (length xs + length cs))" by simp
    then show ?thesis
      by (subst brace_loop.simps) (simp add: n other)
  qed
qed

lemma class_text_closed:
  assumes "CHR ''{'' \<notin> set header"
      and "\<forall>k \<le> length body. closes (take k body) \<le> opens (take k body)"
      and "closes body = opens body"
  shows "class_text (header @ CHR ''{'' # body @ CHR ''}'' # rest) = header @ CHR ''{'' # body @ [CHR ''}'']"
proof -
  have "brace_loop ((header @ [CHR ''{'']) @ body @ CHR ''}'' # rest) 1 (length (header @ [CHR ''{'']))
          = length (header @ [CHR ''{'']) + length body + 1"
    by (rule brace_loop_closed) (use assms in \<open>auto simp: less_Suc_eq_le\<close>)
  then have "brace_loop (header @ CHR ''{'' # body @ CHR ''}'' # rest) (Suc 0) (Suc (length header))
          = Suc (Suc (length header + length body))" by simp
  with assms(1) show ?thesis
    by (simp add: class_text_def indexOf_first)
qed

lemma class_text_open:
  assumes "CHR ''{'' \<notin> set header"
      and "\<forall>k \<le> length body. closes (take k body) \<le> opens (take k body)"
  shows "brace_loop (header @ CHR ''{'' # body) 1 (length header + 1) = length (header @ CHR ''{'' # body)"
    and "class_text (header @ CHR ''{'' # body) = header @ CHR ''{'' # body"
proof -
  have "brace_loop ((header @ [CHR ''{'']) @ body) 1 (length (header @ [CHR ''{'']))
          = length ((header @ [CHR ''{'']) @ body)"
    by (rule brace_loop_open) (use assms in \<open>auto simp: less_Suc_eq_le\<close>)
  then show l: "brace_loop (header @ CHR ''{'' # body) 1 (length header + 1) = length (header @ CHR ''{'' # body)"
    by simp
  with assms(1) show "class_text (header @ CHR ''{'' # body) = header @ CHR ''{'' # body"
    by (simp add: class_text_def indexOf_first)
qed

lemma scanDeclarations_member:
  assumes "(at, className) \<in> set (class_matches content)" and "str_includes className ''Test''"
  shows "(className, method_matches (class_text at)) \<in> set (scanDeclarations content)"
proof -
  from assms have "(at, className)
      \<in> set (filter (\<lambda>(at, className). str_includes className ''Test'') (class_matches content))"
    by simp
  then have "(\<lambda>(at, className). (className, method_matches (class_text at))) (at, className)
      \<in> set (scanDeclarations content)"
    unfolding scanDeclarations_def set_map by (rule imageI)
  then show ?thesis by simp
qed

lemma stays_open_prefixes:
  "stays_open n t \<Longrightarrow> k \<le> length t \<Longrightarrow> closes (take k t) \<le> n + opens (take k t)"
proof (induction t arbitrary: n k)
  case Nil
  then show ?case by (simp add: closes_def opens_def)
next
  case (Cons c cs)
  show ?case
  proof (cases k)
    case 0
    then show ?thesis by (simp add: closes_def opens_def)
  next
    case (Suc j)
    with Cons.prems have j: "j \<le> length cs" by simp
    consider (op) "c = CHR ''{''" | (cl) "c = CHR ''}''" | (other) "c \<noteq> CHR ''{''" "c \<noteq> CHR ''}''"
      by blast
    then show ?thesis
    proof cases
      case op
      with Cons.prems have "stays_open (Suc n) cs" by simp
      from Cons.IH[OF this j] show ?thesis using op Suc by (simp add: closes_def opens_def)
    next
      case cl
      with Cons.prems have n: "0 < n" and "stays_open (n - 1) cs" by simp_all
      from Cons.IH[OF this(2) j] n show ?thesis using cl Suc by (simp add: closes_def opens_def)
    next
      case other
      with Cons.prems have "stays_open n cs" by simp
      from Cons.IH[OF this j] show ?thesis using other Suc by (simp add: closes_def opens_def)
    qed
  qed
qed

text \<open>
  C7, as claimed: the method list of a class holds exactly the methods of its own body,
  and a method of a nested test class is not listed for the outer class. The method
  pattern is run over the whole text up to the outer class's closing brace, nested
  blocks included: \<open>innerCase\<close> is listed for \<open>OuterTest\<close> and again for \<open>InnerTest\<close>.
\<close>

theorem nested_method_listed_twice:
  "scanDeclarations nested_content
     = [(''OuterTest'', [''innerCase'']), (''InnerTest'', [''innerCase''])]"
  by (simp add: scanDeclarations_def class_matches.simps method_matches.simps class_text_def
      brace_loop.simps nested_content_def classRegex_def methodRegex_def is_space_def is_word_def)

text \<open>
  C7, amended: for a test class whose opening brace is closed (the braces after it are
  balanced up to a closing brace), the method list is the list of matches of the method
  pattern in the text from the \<open>class\<close> keyword through that closing brace, everything
  in nested blocks included; nothing after the closing brace is scanned.
\<close>

theorem methods_of_closed_class:
  assumes "(header @ CHR ''{'' # body @ CHR ''}'' # rest, className) \<in> set (class_matches content)"
      and "str_includes className ''Test''"
      and "CHR ''{'' \<notin> set header"
      and "\<forall>k \<le> length body. closes (take k body) \<le> opens (take k body)"
      and "closes body = opens body"
  shows "(className, method_matches (header @ CHR ''{'' # body @ [CHR ''}'']))
           \<in> set (scanDeclarations content)"
  using scanDeclarations_member[OF assms(1,2)] class_text_closed[OF assms(3,4,5)] by simp

theorem methods_of_closed_class_witness:
  "(''class OuterTest '' @ CHR ''{'' # '' class InnerTest { @Test fun innerCase() {} } '' @ CHR ''}'' # [],
      ''OuterTest'') \<in> set (class_matches nested_content)
   \<and> str_includes ''OuterTest'' ''Test''
   \<and> CHR ''{'' \<notin> set ''class OuterTest ''
   \<and> stays_open 0 '' class InnerTest { @Test fun innerCase() {} } ''
   \<and> closes '' class InnerTest { @Test fun innerCase() {} } ''
       = opens '' class InnerTest { @Test fun innerCase() {} } ''
   \<and> (''OuterTest'', [''innerCase'']) \<in> set (scanDeclarations nested_content)"
proof -
  let ?header = "''class OuterTest ''"
  let ?body = "'' class InnerTest { @Test fun innerCase() {} } ''"
  have so: "stays_open 0 ?body" by simp
  have 1: "(?header @ CHR ''{'' # ?body @ CHR ''}'' # [], ''OuterTest'')
             \<in> set (class_matches nested_content)"
    by (simp add: class_matches.simps nested_content_def classRegex_def is_space_def is_word_def)
  have 2: "str_includes ''OuterTest'' ''Test''" by simp
  have 3: "CHR ''{'' \<notin> set ?header" by simp
  have 4: "\<forall>k \<le> length ?body. closes (take k ?body) \<le> opens (take k ?body)"
    using stays_open_prefixes[OF so] by simp
  have 5: "closes ?body = opens ?body" by (simp add: closes_def opens_def)
  have m: "method_matches (?header @ CHR ''{'' # ?body @ [CHR ''}'']) = [''innerCase'']"
    by (simp add: method_matches.simps methodRegex_def is_space_def is_word_def)
  from methods_of_closed_class[OF 1 2 3 4 5] have
    "(''OuterTest'', [''innerCase'']) \<in> set (scanDeclarations nested_content)"
    unfolding m .
  with 1 2 3 so 5 show ?thesis by blast
qed

text \<open>
  C9. A class body that is never closed: no prefix of the text after the opening brace
  closes more braces than it opens, so the counter never returns to zero. The brace loop
  is a total function (its termination is proved with the measure
  \<open>length classContent - endPos\<close>); on such a text it stops at the end of the content,
  the whole remaining text is the class text, and the scan returns the class with the
  methods matched in it.
\<close>

theorem unclosed_class_scanned_to_end:
  assumes "(header @ CHR ''{'' # body, className) \<in> set (class_matches content)"
      and "str_includes className ''Test''"
      and "CHR ''{'' \<notin> set header"
      and "\<forall>k \<le> length body. closes (take k body) \<le> opens (take k body)"
  shows "brace_loop (header @ CHR ''{'' # body) 1 (length header + 1)
           = length (header @ CHR ''{'' # body)
         \<and> class_text (header @ CHR ''{'' # body) = header @ CHR ''{'' # body
         \<and> (className, method_matches (header @ CHR ''{'' # body)) \<in> set (scanDeclarations content)"
  using scanDeclarations_member[OF assms(1,2)] class_text_open[OF assms(3,4)] by simp

theorem unclosed_class_scanned_to_end_witness:
  "(''class FooTest '' @ CHR ''{'' # '' @Test fun a() { if (x) { y() }'', ''FooTest'')
      \<in> set (class_matches unclosed_content)
   \<and> str_includes ''FooTest'' ''Test''
   \<and> CHR ''{'' \<notin> set ''class FooTest ''
   \<and> stays_open 0 '' @Test fun a() { if (x) { y() }''
   \<and> brace_loop unclosed_content 1 15 = length unclosed_content
   \<and> scanDeclarations unclosed_content = [(''FooTest'', [''a''])]"
proof -
  let ?header = "''class FooTest ''"
  let ?body = "'' @Test fun a() { if (x) { y() }''"
  have so: "stays_open 0 ?body" by simp
  have 1: "(?header @ CHR ''{'' # ?body, ''FooTest'') \<in> set (class_matches unclosed_content)"
    by (simp add: class_matches.simps unclosed_content_def classRegex_def is_space_def is_word_def)
  have 2: "str_includes ''FooTest'' ''Test''" by simp
  have 3: "CHR ''{'' \<notin> set ?header" by simp
  have 4: "\<forall>k \<le> length ?body. closes (take k ?body) \<le> opens (take k ?body)"
    using stays_open_prefixes[OF so] by simp
  have u: "unclosed_content = ?header @ CHR ''{'' # ?body" by (simp add: unclosed_content_def)
  have cm: "class_matches unclosed_content = [(unclosed_content, ''FooTest'')]"
    by (simp add: class_matches.simps unclosed_content_def classRegex_def is_space_def is_word_def)
  have mm: "method_matches unclosed_content = [''a'']"
    by (simp add: method_matches.simps unclosed_content_def methodRegex_def is_space_def is_word_def)
  have n: "length ?header + 1 = 15" by simp
  from unclosed_class_scanned_to_end[OF 1 2 3 4] have
    l: "brace_loop unclosed_content 1 15 = length unclosed_content"
    and t: "class_text unclosed_content = unclosed_content"
    unfolding u[symmetric] n by blast+
  have "scanDeclarations unclosed_content = [(''FooTest'', [''a''])]"
    by (simp add: scanDeclarations_def cm t mm)
  with 1 2 3 so l show ?thesis by blast
qed


section \<open>Facts about the store operations\<close>

lemma add_method_create_child: "add_method u c m s = create_child u c m s"
  by (simp add: add_method_def create_child_def createTestItem_def)

lemma add_class_create_child:
  "add_class u f d s = fold (add_method u (length (heap s))) (snd d) (create_child u f (fst d) s)"
  by (simp add: add_class_def create_child_def createTestItem_def Let_def)

lemma create_child_heap:
  assumes "p < length (heap s)"
  shows "heap (create_child u p name s)
         = (heap s)[p := (heap s ! p)\<lparr>tchildren :=
                collection_add (heap s @ [\<lparr>tid = tid (heap s ! p) @ ''.'' @ name, tlabel = name, turi = u,
                   tchildren = [], tparent = None\<rparr>]) (tchildren (heap s ! p)) (length (heap s))\<rparr>]
           @ [\<lparr>tid = tid (heap s ! p) @ ''.'' @ name, tlabel = name, turi = u,
                   tchildren = [], tparent = Some p\<rparr>]"
  using assms
  by (simp add: create_child_def children_add_def createTestItem_def Let_def nth_append
      list_update_append)

lemma create_child_testItems:
  "testItems (create_child u p name s) = (testItems s)(tid (heap s ! p) @ ''.'' @ name \<mapsto> length (heap s))"
  by (simp add: create_child_def children_add_def createTestItem_def Let_def)

lemma create_child_length:
  "p < length (heap s) \<Longrightarrow> length (heap (create_child u p name s)) = Suc (length (heap s))"
  by (simp add: create_child_heap)

lemma create_child_index [simp]:
  "fileToTestItemsMap (create_child u p name s) = fileToTestItemsMap s"
  by (simp add: create_child_def children_add_def createTestItem_def Let_def)

lemma sample_scan:
  "scanDeclarations ''import org.junit.Test class FooTest { @Test fun testBar() {} @Test fun testBaz() {} }''
      = [(''FooTest'', [''testBar'', ''testBaz''])]"
  by (simp add: scanDeclarations_def class_matches.simps method_matches.simps class_text_def
      brace_loop.simps classRegex_def methodRegex_def is_space_def is_word_def)

lemma sample_getOrCreate:
  "getOrCreateFileTestItem initial_store ''/w/FooTest.kt'' = (0, sample_file_store)"
  by (simp add: getOrCreateFileTestItem_def createTestItem_def initial_store_def basename_def
      sample_file_store_def Let_def)

lemma sample_store_steps:
  "sample_store =
     create_child ''/w/FooTest.kt'' (Suc 0) ''testBaz''
       (create_child ''/w/FooTest.kt'' (Suc 0) ''testBar''
          (create_child ''/w/FooTest.kt'' 0 ''FooTest'' sample_file_store))"
proof -
  have r: "removeTestsForFile initial_store ''/w/FooTest.kt'' = initial_store"
    by (simp add: removeTestsForFile_def initial_store_def)
  have l: "length (heap sample_file_store) = 1" by (simp add: sample_file_store_def)
  have e: "endsWith ''/w/FooTest.kt'' ''.kt''" by (simp add: endsWith_def)
  have f: "sample_readFile ''/w/FooTest.kt''
     = Some ''import org.junit.Test class FooTest { @Test fun testBar() {} @Test fun testBaz() {} }''"
    by (simp add: sample_readFile_def)
  show ?thesis
    unfolding sample_store_def resolveTestsInFile_def
    by (simp add: e f r rebuild_def sample_getOrCreate sample_scan add_class_create_child
        add_method_create_child l)
qed

lemma sample_heap_1:
  "heap (create_child ''/w/FooTest.kt'' 0 ''FooTest'' sample_file_store) =
    [\<lparr>tid = ''kotlin-test:/w/FooTest.kt'', tlabel = ''FooTest.kt'', turi = ''/w/FooTest.kt'',
        tchildren = [1], tparent = None\<rparr>,
     \<lparr>tid = ''kotlin-test:/w/FooTest.kt.FooTest'', tlabel = ''FooTest'', turi = ''/w/FooTest.kt'',
        tchildren = [], tparent = Some 0\<rparr>]"
  by (simp add: create_child_heap sample_file_store_def collection_add_def)

lemma sample_heap_2:
  "heap (create_child ''/w/FooTest.kt'' (Suc 0) ''testBar''
          (create_child ''/w/FooTest.kt'' 0 ''FooTest'' sample_file_store)) =
    [\<lparr>tid = ''kotlin-test:/w/FooTest.kt'', tlabel = ''FooTest.kt'', turi = ''/w/FooTest.kt'',
        tchildren = [1], tparent = None\<rparr>,
     \<lparr>tid = ''kotlin-test:/w/FooTest.kt.FooTest'', tlabel = ''FooTest'', turi = ''/w/FooTest.kt'',
        tchildren = [2], tparent = Some 0\<rparr>,
     \<lparr>tid = ''kotlin-test:/w/FooTest.kt.FooTest.testBar'', tlabel = ''testBar'',
        turi = ''/w/FooTest.kt'', tchildren = [], tparent = Some 1\<rparr>]"
  by (simp add: create_child_heap sample_heap_1 collection_add_def)

lemma sample_store_heap:
  "heap sample_store =
    [\<lparr>tid = ''kotlin-test:/w/FooTest.kt'', tlabel = ''FooTest.kt'', turi = ''/w/FooTest.kt'',
        tchildren = [1], tparent = None\<rparr>,
     \<lparr>tid = ''kotlin-test:/w/FooTest.kt.FooTest'', tlabel = ''FooTest'', turi = ''/w/FooTest.kt'',
        tchildren = [2, 3], tparent = Some 0\<rparr>,
     \<lparr>tid = ''kotlin-test:/w/FooTest.kt.FooTest.testBar'', tlabel = ''testBar'',
        turi = ''/w/FooTest.kt'', tchildren = [], tparent = Some 1\<rparr>,
     \<lparr>tid = ''kotlin-test:/w/FooTest.kt.FooTest.testBaz'', tlabel = ''testBaz'',
        turi = ''/w/FooTest.kt'', tchildren = [], tparent = Some 1\<rparr>]"
  by (simp add: sample_store_steps create_child_heap sample_heap_2 collection_add_def)

lemma create_child_controller [simp]:
  "controller_items (create_child u p name s) = controller_items s"
  by (simp add: create_child_def children_add_def createTestItem_def Let_def)

lemma sample_store_maps:
  "testItems sample_store ''kotlin-test:/w/FooTest.kt'' = Some 0"
  "fileToTestItemsMap sample_store ''/w/FooTest.kt'' = Some [0]"
  "controller_items sample_store = []"
  by (simp_all add: sample_store_steps create_child_testItems sample_heap_1 sample_heap_2
      sample_file_store_def)


section \<open>The root collection\<close>

lemma fold_invariant:
  assumes "\<And>x s. P s \<Longrightarrow> P (f x s)" and "P s"
  shows "P (fold f xs s)"
  using assms(2) by (induction xs arbitrary: s) (auto intro: assms(1))

lemma fold_delete_empty:
  "fold (\<lambda>a items. collection_delete h items (tid (h ! a))) xs [] = []"
  by (induction xs) (simp_all add: collection_delete_def)

lemma children_add_controller [simp]: "controller_items (children_add s p c) = controller_items s"
  by (simp add: children_add_def Let_def)

lemma createTestItem_controller [simp]:
  "controller_items (snd (createTestItem s i lbl u)) = controller_items s"
  by (simp add: createTestItem_def)

lemma add_method_controller [simp]: "controller_items (add_method u c m s) = controller_items s"
  by (simp add: add_method_def case_prod_beta)

lemma add_class_controller [simp]: "controller_items (add_class u f d s) = controller_items s"
proof -
  have "controller_items (fold (add_method u c) ms t) = controller_items t" for c ms t
    by (induction ms arbitrary: t) simp_all
  then show ?thesis
    by (simp add: add_class_def Let_def case_prod_beta)
qed

lemma getOrCreate_controller [simp]:
  "controller_items (snd (getOrCreateFileTestItem s p)) = controller_items s"
  by (simp add: getOrCreateFileTestItem_def Let_def case_prod_beta split: option.splits)

lemma remove_controller_empty:
  "controller_items s = [] \<Longrightarrow> controller_items (removeTestsForFile s p) = []"
  by (simp add: removeTestsForFile_def fold_delete_empty split: option.splits)

lemma rebuild_controller [simp]: "controller_items (rebuild s p content) = controller_items s"
proof -
  have "controller_items (fold (add_class p f) ds t) = controller_items t" for f ds t
    by (induction ds arbitrary: t) simp_all
  then show ?thesis by (simp add: rebuild_def case_prod_beta)
qed

lemma resolve_controller_empty:
  assumes "controller_items s = []"
  shows "controller_items (resolveTestsInFile readFile s uri) = []"
  using assms remove_controller_empty[OF assms]
  by (simp add: resolveTestsInFile_def Let_def split: option.splits)

lemma discover_controller_empty:
  assumes "controller_items s = []"
  shows "controller_items (discoverAllTests readFile folders s) = []"
proof -
  have files: "controller_items (fold (\<lambda>file st1. resolveTestsInFile readFile st1 (Some file)) fl t) = []"
    if "controller_items t = []" for fl t
    by (rule fold_invariant[where P = "\<lambda>t. controller_items t = []"])
       (auto intro: resolve_controller_empty that)
  have all: "controller_items (fold (\<lambda>folder st.
                     fold (\<lambda>file st1. resolveTestsInFile readFile st1 (Some file))
                       (findKotlinTestFiles (fst folder) (snd folder)) st) fs t) = []"
    if "controller_items t = []" for fs t
    by (rule fold_invariant[where P = "\<lambda>t. controller_items t = []"])
       (auto intro: files that)
  show ?thesis
  proof (cases folders)
    case None
    with assms show ?thesis by (simp add: discoverAllTests_def fold_delete_empty)
  next
    case (Some fs)
    have "controller_items (fold (\<lambda>folder st.
                     fold (\<lambda>file st1. resolveTestsInFile readFile st1 (Some file))
                       (findKotlinTestFiles (fst folder) (snd folder)) st) fs
            (s\<lparr>controller_items :=
                 fold (\<lambda>a items. collection_delete (heap s) items (tid (heap s ! a)))
                   (controller_items s) (controller_items s),
               testItems := (\<lambda>i. None),
               fileToTestItemsMap := (\<lambda>p. None)\<rparr>)) = []"
      by (rule all) (simp add: assms fold_delete_empty)
    with Some show ?thesis
      by (simp only: discoverAllTests_def Let_def option.case)
  qed
qed

lemma reachable_controller_empty: "reachable s \<Longrightarrow> controller_items s = []"
  by (induction rule: reachable.induct)
     (auto simp: initial_store_def intro: discover_controller_empty resolve_controller_empty
        remove_controller_empty)

text \<open>
  C2. No operation of the discovery inserts into \<open>testController.items\<close>; they only
  delete from it. In every state reachable by \<open>discoverAllTests\<close>, \<open>resolveTestsInFile\<close>
  and \<open>removeTestsForFile\<close> (and by the rebuilding half of a resolve on its own) the
  root collection is empty, and a run request without an include set, whose queue is
  seeded from the root collection (\<open>view\<close> being any way of reading the stored items),
  dispatches nothing. The witness shows a resolved file's item in the id map and the
  file index, and not among the roots.
\<close>

theorem root_collection_stays_empty:
  assumes "reachable s"
  shows "controller_items s = []
         \<and> runHandler e (map view (controller_items s)) \<lparr>req_include = None, req_exclude = ex\<rparr> token
             = [RunEnd]"
  using reachable_controller_empty[OF assms] by (simp add: runHandler_def)

theorem root_collection_stays_empty_witness:
  "reachable sample_store
   \<and> testItems sample_store ''kotlin-test:/w/FooTest.kt'' = Some 0
   \<and> fileToTestItemsMap sample_store ''/w/FooTest.kt'' = Some [0]
   \<and> controller_items sample_store = []
   \<and> runHandler gradle_env
        (map (\<lambda>a. Item [] (subtree (heap sample_store) 2 a)) (controller_items sample_store))
        \<lparr>req_include = None, req_exclude = None\<rparr> never = [RunEnd]"
proof -
  have r: "reachable sample_store"
    unfolding sample_store_def by (intro reachable.resolve reachable.initial)
  from root_collection_stays_empty[OF r] r sample_store_maps(1,2) show ?thesis by blast
qed


section \<open>Ids along the tree\<close>

lemma store_invI:
  assumes "\<And>i a. testItems s i = Some a \<Longrightarrow> a < length (heap s)"
      and "\<And>p c. p < length (heap s) \<Longrightarrow> c \<in> set (tchildren (heap s ! p)) \<Longrightarrow>
             c < length (heap s) \<and> tid (heap s ! c) = tid (heap s ! p) @ ''.'' @ tlabel (heap s ! c)"
  shows "store_inv s"
  using assms unfolding store_inv_def by blast

lemma store_inv_testItems: "store_inv s \<Longrightarrow> testItems s i = Some a \<Longrightarrow> a < length (heap s)"
  unfolding store_inv_def by blast

lemma store_inv_child:
  "store_inv s \<Longrightarrow> p < length (heap s) \<Longrightarrow> c \<in> set (tchildren (heap s ! p)) \<Longrightarrow>
     c < length (heap s) \<and> tid (heap s ! c) = tid (heap s ! p) @ ''.'' @ tlabel (heap s ! c)"
  unfolding store_inv_def by blast

lemma collection_add_subset: "set (collection_add h items c) \<subseteq> insert c (set items)"
  by (auto simp: collection_add_def)

lemma create_child_inv:
  assumes "store_inv s" and "p < length (heap s)"
  shows "store_inv (create_child u p name s)" and "length (heap (create_child u p name s)) = Suc (length (heap s))"
proof -
  let ?s' = "create_child u p name s"
  let ?new = "\<lparr>tid = tid (heap s ! p) @ ''.'' @ name, tlabel = name, turi = u,
                   tchildren = [], tparent = Some p\<rparr>"
  let ?kids = "collection_add (heap s @ [\<lparr>tid = tid (heap s ! p) @ ''.'' @ name, tlabel = name, turi = u,
                   tchildren = [], tparent = None\<rparr>]) (tchildren (heap s ! p)) (length (heap s))"
  have h: "heap ?s' = (heap s)[p := (heap s ! p)\<lparr>tchildren := ?kids\<rparr>] @ [?new]"
    using assms(2) by (rule create_child_heap)
  then show len: "length (heap ?s') = Suc (length (heap s))" by simp
  have ids: "tid (heap ?s' ! x) = tid (heap s ! x)" "tlabel (heap ?s' ! x) = tlabel (heap s ! x)"
    if "x < length (heap s)" for x
    using that assms(2) by (simp_all add: h nth_append nth_list_update)
  have new: "tid (heap ?s' ! length (heap s)) = tid (heap s ! p) @ ''.'' @ name"
       "tlabel (heap ?s' ! length (heap s)) = name"
    by (simp_all add: h nth_append)
  have kids: "tchildren (heap ?s' ! x) = (if x = p then ?kids else tchildren (heap s ! x))"
    if "x < length (heap s)" for x
    using that assms(2) by (simp add: h nth_append nth_list_update)
  have newkids: "tchildren (heap ?s' ! length (heap s)) = []"
    by (simp add: h nth_append)
  show "store_inv ?s'"
  proof (rule store_invI)
    fix i a assume "testItems ?s' i = Some a"
    then show "a < length (heap ?s')"
      using store_inv_testItems[OF assms(1)]
      by (auto simp: create_child_testItems len split: if_splits intro: less_SucI)
  next
    fix q c assume q: "q < length (heap ?s')" and c: "c \<in> set (tchildren (heap ?s' ! q))"
    show "c < length (heap ?s') \<and> tid (heap ?s' ! c) = tid (heap ?s' ! q) @ ''.'' @ tlabel (heap ?s' ! c)"
    proof (cases "q = length (heap s)")
      case True
      with c newkids show ?thesis by simp
    next
      case False
      with q len have ql: "q < length (heap s)" by simp
      have "c \<in> set (tchildren (heap s ! q)) \<or> (q = p \<and> c = length (heap s))"
        using c kids[OF ql] collection_add_subset[of _ "tchildren (heap s ! p)" "length (heap s)"]
        by (auto split: if_splits)
      then show ?thesis
      proof
        assume old: "c \<in> set (tchildren (heap s ! q))"
        from store_inv_child[OF assms(1) ql old] show ?thesis
          using ids ql len by simp
      next
        assume "q = p \<and> c = length (heap s)"
        then show ?thesis using new ids[OF assms(2)] len by simp
      qed
    qed
  qed
qed

lemma add_methods_inv:
  assumes "store_inv s" and "c < length (heap s)"
  shows "store_inv (fold (add_method u c) ms s) \<and> length (heap s) \<le> length (heap (fold (add_method u c) ms s))"
  using assms
proof (induction ms arbitrary: s)
  case Nil
  then show ?case by simp
next
  case (Cons m ms)
  let ?s1 = "add_method u c m s"
  have 1: "store_inv ?s1" and 2: "length (heap ?s1) = Suc (length (heap s))"
    using create_child_inv[OF Cons.prems] by (simp_all add: add_method_create_child)
  from 2 Cons.prems(2) have 3: "c < length (heap ?s1)" by simp
  from Cons.IH[OF 1 3] 2 show ?case by simp
qed

lemma add_class_inv:
  assumes "store_inv s" and "f < length (heap s)"
  shows "store_inv (add_class u f d s) \<and> length (heap s) \<le> length (heap (add_class u f d s))"
proof -
  let ?s1 = "create_child u f (fst d) s"
  have 1: "store_inv ?s1" and 2: "length (heap ?s1) = Suc (length (heap s))"
    using create_child_inv[OF assms] by simp_all
  then have 3: "length (heap s) < length (heap ?s1)" by simp
  from add_methods_inv[OF 1 3, of u "snd d"] 2 show ?thesis
    by (simp add: add_class_create_child)
qed

lemma add_classes_inv:
  assumes "store_inv s" and "f < length (heap s)"
  shows "store_inv (fold (add_class u f) ds s)"
  using assms
proof (induction ds arbitrary: s)
  case Nil
  then show ?case by simp
next
  case (Cons d ds)
  from add_class_inv[OF Cons.prems, of u d] Cons.prems(2)
  have "store_inv (add_class u f d s)" and "f < length (heap (add_class u f d s))" by auto
  from Cons.IH[OF this] show ?case by simp
qed

lemma fold_delete_keys:
  "fold (\<lambda>a m. m(tid (h ! a) := None)) xs m i = Some b \<Longrightarrow> m i = Some b"
proof (induction xs arbitrary: m)
  case Nil
  then show ?case by simp
next
  case (Cons x xs)
  from Cons.prems have "fold (\<lambda>a m. m(tid (h ! a) := None)) xs (m(tid (h ! x) := None)) i = Some b"
    by (simp only: fold.simps comp_apply)
  from Cons.IH[OF this] show ?case by (simp split: if_splits)
qed

lemma remove_inv: "store_inv s \<Longrightarrow> store_inv (removeTestsForFile s p)"
proof (cases "fileToTestItemsMap s p")
  case None
  assume "store_inv s"
  with None show ?thesis by (simp add: removeTestsForFile_def)
next
  case (Some fileItems)
  assume inv: "store_inv s"
  show ?thesis
  proof (rule store_invI)
    fix i a assume "testItems (removeTestsForFile s p) i = Some a"
    with Some have "fold (\<lambda>a m. m(tid (heap s ! a) := None)) fileItems (testItems s) i = Some a"
      by (simp add: removeTestsForFile_def)
    then have "testItems s i = Some a" by (rule fold_delete_keys)
    with inv Some show "a < length (heap (removeTestsForFile s p))"
      by (simp add: removeTestsForFile_def store_inv_testItems)
  next
    fix q c
    assume "q < length (heap (removeTestsForFile s p))"
       and "c \<in> set (tchildren (heap (removeTestsForFile s p) ! q))"
    with Some store_inv_child[OF inv, of q c]
    show "c < length (heap (removeTestsForFile s p)) \<and>
          tid (heap (removeTestsForFile s p) ! c)
            = tid (heap (removeTestsForFile s p) ! q) @ ''.'' @ tlabel (heap (removeTestsForFile s p) ! c)"
      by (simp add: removeTestsForFile_def)
  qed
qed

lemma getOrCreate_inv:
  assumes "store_inv s"
  shows "store_inv (snd (getOrCreateFileTestItem s p))
         \<and> fst (getOrCreateFileTestItem s p) < length (heap (snd (getOrCreateFileTestItem s p)))"
proof (cases "testItems s (''kotlin-test:'' @ p)")
  case (Some a)
  with assms store_inv_testItems[OF assms Some] show ?thesis
    by (simp add: getOrCreateFileTestItem_def)
next
  case None
  let ?new = "\<lparr>tid = ''kotlin-test:'' @ p, tlabel = basename p, turi = p, tchildren = [], tparent = None\<rparr>"
  let ?s' = "snd (getOrCreateFileTestItem s p)"
  have h: "heap ?s' = heap s @ [?new]"
    and t: "testItems ?s' = (testItems s)(''kotlin-test:'' @ p \<mapsto> length (heap s))"
    and f: "fst (getOrCreateFileTestItem s p) = length (heap s)"
    using None by (simp_all add: getOrCreateFileTestItem_def createTestItem_def Let_def)
  have "store_inv ?s'"
  proof (rule store_invI)
    fix i a assume "testItems ?s' i = Some a"
    then show "a < length (heap ?s')"
      using store_inv_testItems[OF assms] by (auto simp: t h split: if_splits intro: less_SucI)
  next
    fix q c assume q: "q < length (heap ?s')" and c: "c \<in> set (tchildren (heap ?s' ! q))"
    then have ql: "q < length (heap s)" and cq: "c \<in> set (tchildren (heap s ! q))"
      by (auto simp: h nth_append less_Suc_eq split: if_splits)
    from store_inv_child[OF assms ql cq] ql
    show "c < length (heap ?s') \<and> tid (heap ?s' ! c) = tid (heap ?s' ! q) @ ''.'' @ tlabel (heap ?s' ! c)"
      by (simp add: h nth_append)
  qed
  with f h show ?thesis by simp
qed

lemma rebuild_inv:
  assumes "store_inv s"
  shows "store_inv (rebuild s p content)"
proof -
  note g = getOrCreate_inv[OF assms, of p]
  have "store_inv (fold (add_class p (fst (getOrCreateFileTestItem s p))) (scanDeclarations content)
          (snd (getOrCreateFileTestItem s p)))"
    using g by (intro add_classes_inv) simp_all
  then show ?thesis by (simp add: rebuild_def case_prod_beta)
qed

lemma resolve_inv:
  assumes "store_inv s"
  shows "store_inv (resolveTestsInFile readFile s uri)"
  using assms remove_inv[OF assms] rebuild_inv[OF remove_inv[OF assms]]
  by (simp add: resolveTestsInFile_def Let_def split: option.splits)

lemma discover_inv:
  assumes "store_inv s"
  shows "store_inv (discoverAllTests readFile folders s)"
proof -
  let ?s0 = "s\<lparr>controller_items :=
                 fold (\<lambda>a items. collection_delete (heap s) items (tid (heap s ! a)))
                   (controller_items s) (controller_items s),
               testItems := (\<lambda>i. None),
               fileToTestItemsMap := (\<lambda>p. None)\<rparr>"
  have s0: "store_inv ?s0"
    using assms by (simp add: store_inv_def)
  have files: "store_inv (fold (\<lambda>file st1. resolveTestsInFile readFile st1 (Some file)) fl t)"
    if "store_inv t" for fl t
    by (rule fold_invariant[where P = store_inv]) (auto intro: resolve_inv that)
  have all: "store_inv (fold (\<lambda>folder st.
                     fold (\<lambda>file st1. resolveTestsInFile readFile st1 (Some file))
                       (findKotlinTestFiles (fst folder) (snd folder)) st) fs t)"
    if "store_inv t" for fs t
    by (rule fold_invariant[where P = store_inv]) (auto intro: files that)
  show ?thesis
  proof (cases folders)
    case None
    with s0 show ?thesis by (simp only: discoverAllTests_def Let_def option.case)
  next
    case (Some fs)
    from all[OF s0, of fs] Some show ?thesis
      by (simp only: discoverAllTests_def Let_def option.case)
  qed
qed

lemma reachable_inv: "reachable s \<Longrightarrow> store_inv s"
proof (induction rule: reachable.induct)
  case initial
  show ?case by (simp add: store_inv_def initial_store_def)
qed (auto intro: discover_inv resolve_inv remove_inv rebuild_inv)

text \<open>
  C10. In every reachable state, an item in the child collection of another has the
  parent's id as a proper prefix of its own: it is the parent's id, a dot and the
  declared name. Class items are only ever added to file items, and method items to
  class items, so this is the chain method id > class id > file id.
\<close>

theorem child_id_extends_parent_id:
  assumes "reachable s" and "p < length (heap s)" and "c \<in> set (tchildren (heap s ! p))"
  shows "strict_prefix (tid (heap s ! p)) (tid (heap s ! c))
         \<and> tid (heap s ! c) = tid (heap s ! p) @ ''.'' @ tlabel (heap s ! c)"
proof -
  from store_inv_child[OF reachable_inv[OF assms(1)] assms(2,3)]
  have e: "tid (heap s ! c) = tid (heap s ! p) @ ''.'' @ tlabel (heap s ! c)" by simp
  then have "strict_prefix (tid (heap s ! p)) (tid (heap s ! c))"
    by (metis append_Cons append_Nil2 list.distinct(1) prefixI same_append_eq strict_prefix_def)
  with e show ?thesis by simp
qed

theorem child_id_extends_parent_id_witness:
  "reachable sample_store
   \<and> 0 < length (heap sample_store) \<and> 1 \<in> set (tchildren (heap sample_store ! 0))
   \<and> tid (heap sample_store ! 0) = ''kotlin-test:/w/FooTest.kt''
   \<and> tid (heap sample_store ! 1) = ''kotlin-test:/w/FooTest.kt.FooTest''
   \<and> strict_prefix (tid (heap sample_store ! 0)) (tid (heap sample_store ! 1))
   \<and> 2 \<in> set (tchildren (heap sample_store ! 1))
   \<and> tid (heap sample_store ! 2) = ''kotlin-test:/w/FooTest.kt.FooTest.testBar''
   \<and> strict_prefix (tid (heap sample_store ! 1)) (tid (heap sample_store ! 2))"
proof -
  have r: "reachable sample_store"
    unfolding sample_store_def by (intro reachable.resolve reachable.initial)
  have 0: "0 < length (heap sample_store)" and 1: "1 \<in> set (tchildren (heap sample_store ! 0))"
    and l1: "1 < length (heap sample_store)" and 2: "2 \<in> set (tchildren (heap sample_store ! 1))"
    by (simp_all add: sample_store_heap)
  have ids: "tid (heap sample_store ! 0) = ''kotlin-test:/w/FooTest.kt''"
    "tid (heap sample_store ! 1) = ''kotlin-test:/w/FooTest.kt.FooTest''"
    "tid (heap sample_store ! 2) = ''kotlin-test:/w/FooTest.kt.FooTest.testBar''"
    by (simp_all add: sample_store_heap)
  from child_id_extends_parent_id[OF r 0 1] child_id_extends_parent_id[OF r l1 2]
  have "strict_prefix (tid (heap sample_store ! 0)) (tid (heap sample_store ! 1))"
    and "strict_prefix (tid (heap sample_store ! 1)) (tid (heap sample_store ! 2))"
    by blast+
  with r 0 1 2 ids show ?thesis by blast
qed


section \<open>Rescanning a file\<close>

lemma map_eq_if_rel: "list_all2 (\<lambda>x y. f x = g y) xs ys \<Longrightarrow> map f xs = map g ys"
  by (induction rule: list_all2_induct) simp_all

lemma repr_frame:
  assumes "repr h lo hi par a t"
      and "\<And>x. lo \<le> x \<Longrightarrow> x < hi \<Longrightarrow> h' ! x = h ! x"
  shows "repr h' lo hi par a t"
  using assms(1)
proof (induction t arbitrary: a par)
  case (Node i ts)
  from Node.prems have a: "lo \<le> a" "a < hi" and i: "tid (h ! a) = i" and p: "tparent (h ! a) = par"
    and kids: "list_all2 (repr h lo hi (Some a)) (tchildren (h ! a)) ts"
    by simp_all
  from kids have "list_all2 (repr h' lo hi (Some a)) (tchildren (h ! a)) ts"
    by (rule list.rel_mono_strong) (auto intro: Node.IH)
  with a i p assms(2)[OF a] show ?case by simp
qed

lemma repr_widen:
  assumes "repr h lo hi par a t" and "lo' \<le> lo" and "hi \<le> hi'"
  shows "repr h lo' hi' par a t"
  using assms(1)
proof (induction t arbitrary: a par)
  case (Node i ts)
  from Node.prems have a: "lo \<le> a" "a < hi" and i: "tid (h ! a) = i" and p: "tparent (h ! a) = par"
    and kids: "list_all2 (repr h lo hi (Some a)) (tchildren (h ! a)) ts"
    by simp_all
  from kids have "list_all2 (repr h lo' hi' (Some a)) (tchildren (h ! a)) ts"
    by (rule list.rel_mono_strong) (auto intro: Node.IH)
  with a i p assms(2,3) show ?case by simp
qed

lemma repr_id: "repr h lo hi par a t \<Longrightarrow> tid (h ! a) = node_id t"
  by (cases t) simp

lemma repr_bounds: "repr h lo hi par a t \<Longrightarrow> lo \<le> a \<and> a < hi"
  by (cases t) simp

lemma repr_subtree: "repr h lo hi par a t \<Longrightarrow> subtree h n a = cut n t"
proof (induction n arbitrary: a t par)
  case 0
  then show ?case by (cases t) simp
next
  case (Suc n)
  obtain i ts where t: "t = Node i ts" by (cases t)
  with Suc.prems have i: "tid (h ! a) = i"
    and kids: "list_all2 (repr h lo hi (Some a)) (tchildren (h ! a)) ts" by simp_all
  from kids have "list_all2 (\<lambda>k t. subtree h n k = cut n t) (tchildren (h ! a)) ts"
    by (rule list.rel_mono_strong) (rule Suc.IH)
  then have "map (subtree h n) (tchildren (h ! a)) = map (cut n) ts" by (rule map_eq_if_rel)
  with i t show ?case by simp
qed

lemma upsert_tree_relabel:
  "map (\<lambda>t. if node_id t = i then Node i ls else t) (upsert_tree (Node i []) ks)
     = upsert_tree (Node i ls) ks"
proof (cases "list_ex (\<lambda>x. node_id x = i) ks")
  case True
  then show ?thesis by (simp add: upsert_tree_def comp_def)
next
  case False
  then have "map (\<lambda>t. if node_id t = i then Node i ls else t) ks = ks"
    by (simp add: list_ex_iff map_idI)
  with False show ?thesis by (simp add: upsert_tree_def)
qed

lemma list_ex_rel:
  assumes "list_all2 R xs ys" and "\<And>x y. R x y \<Longrightarrow> P x = Q y"
  shows "list_ex P xs = list_ex Q ys"
  using assms(1) by (induction rule: list_all2_induct) (auto simp: assms(2))

lemma collection_add_upsert:
  assumes rel: "list_all2 R K ks"
      and ids: "\<And>k t. R k t \<Longrightarrow> tid (h ! k) = node_id t"
      and c: "tid (h ! c) = node_id t0"
      and new: "R' c t0"
      and old: "\<And>k t. R k t \<Longrightarrow> node_id t \<noteq> node_id t0 \<Longrightarrow> R' k t"
  shows "list_all2 R' (collection_add h K c) (upsert_tree t0 ks)"
proof -
  have ex: "list_ex (\<lambda>k. tid (h ! k) = tid (h ! c)) K = list_ex (\<lambda>x. node_id x = node_id t0) ks"
    using rel by (rule list_ex_rel) (simp add: ids c)
  show ?thesis
  proof (cases "list_ex (\<lambda>x. node_id x = node_id t0) ks")
    case True
    have "list_all2 (\<lambda>k t. R' (if tid (h ! k) = tid (h ! c) then c else k)
                              (if node_id t = node_id t0 then t0 else t)) K ks"
      using rel by (rule list.rel_mono_strong) (auto simp: ids c new old)
    then have "list_all2 R' (map (\<lambda>k. if tid (h ! k) = tid (h ! c) then c else k) K)
                 (map (\<lambda>x. if node_id x = node_id t0 then t0 else x) ks)"
      by (simp add: list_all2_map1 list_all2_map2)
    with True ex show ?thesis by (simp add: collection_add_def upsert_tree_def)
  next
    case False
    then have "\<And>t. t \<in> set ks \<Longrightarrow> node_id t \<noteq> node_id t0" by (auto simp: list_ex_iff)
    with rel have "list_all2 R' K ks"
      by (auto intro: list.rel_mono_strong old)
    with new have "list_all2 R' (K @ [c]) (ks @ [t0])" by (simp add: list_all2_appendI)
    with False ex show ?thesis by (simp add: collection_add_def upsert_tree_def)
  qed
qed

lemma create_child_nth:
  assumes "p < length (heap s)"
  shows "heap (create_child u p name s) ! length (heap s)
           = \<lparr>tid = tid (heap s ! p) @ ''.'' @ name, tlabel = name, turi = u, tchildren = [],
               tparent = Some p\<rparr>"
    and "x < length (heap s) \<Longrightarrow> x \<noteq> p \<Longrightarrow> heap (create_child u p name s) ! x = heap s ! x"
    and "tid (heap (create_child u p name s) ! p) = tid (heap s ! p)"
    and "tparent (heap (create_child u p name s) ! p) = tparent (heap s ! p)"
    and "tchildren (heap (create_child u p name s) ! p)
           = collection_add (heap s @ [\<lparr>tid = tid (heap s ! p) @ ''.'' @ name, tlabel = name,
                 turi = u, tchildren = [], tparent = None\<rparr>]) (tchildren (heap s ! p)) (length (heap s))"
  using assms by (simp_all add: create_child_heap nth_append)

lemma class_item_created:
  assumes "file_built s f fileId ks"
  shows "class_built (create_child u f name s) f fileId (length (heap s)) (fileId @ ''.'' @ name)
           (upsert_tree (Node (fileId @ ''.'' @ name) []) ks) []"
proof -
  let ?h = "heap s" and ?c = "length (heap s)" and ?cid = "fileId @ ''.'' @ name"
  let ?s' = "create_child u f name s"
  let ?h1 = "heap s @ [\<lparr>tid = ?cid, tlabel = name, turi = u, tchildren = [], tparent = None\<rparr>]"
  from assms have f: "f < ?c" and fid: "tid (?h ! f) = fileId" and reg: "testItems s fileId = Some f"
    and rel: "list_all2 (repr ?h (Suc f) ?c (Some f)) (tchildren (?h ! f)) ks"
    by (simp_all add: file_built_def)
  note nth = create_child_nth[where u = u and name = name, OF f, unfolded fid]
  have len: "length (heap ?s') = Suc ?c" using f by (rule create_child_length)
  have same: "heap ?s' ! x = ?h ! x" if "Suc f \<le> x" "x < ?c" for x
    using that nth(2)[of x] by simp
  have kids: "list_all2 (\<lambda>k t. if k = ?c then node_id t = ?cid
                        else node_id t \<noteq> ?cid \<and> repr (heap ?s') (Suc f) ?c (Some f) k t)
        (collection_add ?h1 (tchildren (?h ! f)) ?c) (upsert_tree (Node ?cid []) ks)"
  proof (rule collection_add_upsert[OF rel])
    fix k t assume r: "repr ?h (Suc f) ?c (Some f) k t"
    from repr_bounds[OF r] repr_id[OF r] show "tid (?h1 ! k) = node_id t" by (simp add: nth_append)
    assume "node_id t \<noteq> node_id (Node ?cid [])"
    with repr_bounds[OF r] repr_frame[OF r same]
    show "if k = ?c then node_id t = ?cid
          else node_id t \<noteq> ?cid \<and> repr (heap ?s') (Suc f) ?c (Some f) k t" by simp
  qed simp_all
  have "?cid \<noteq> fileId" by simp
  then have reg': "testItems ?s' fileId = Some f"
    using reg fid by (simp add: create_child_testItems)
  show ?thesis
    unfolding class_built_def
    using f len nth(1,3,5) reg' kids by simp
qed

lemma method_item_created:
  assumes "class_built s f fileId c classId ks ls"
  shows "class_built (create_child u c name s) f fileId c classId ks
           (upsert_tree (Node (classId @ ''.'' @ name) []) ls)"
proof -
  let ?h = "heap s" and ?n = "length (heap s)" and ?mid = "classId @ ''.'' @ name"
  let ?s' = "create_child u c name s"
  let ?h1 = "heap s @ [\<lparr>tid = ?mid, tlabel = name, turi = u, tchildren = [], tparent = None\<rparr>]"
  from assms have fc: "f < c" and c: "c < ?n" and fid: "tid (?h ! f) = fileId"
    and reg: "testItems s fileId = Some f" and cid: "tid (?h ! c) = classId"
    and cpar: "tparent (?h ! c) = Some f" and lens: "length fileId \<le> length classId"
    and krel: "list_all2 (\<lambda>k t. if k = c then node_id t = classId
                        else node_id t \<noteq> classId \<and> repr ?h (Suc f) c (Some f) k t)
        (tchildren (?h ! f)) ks"
    and lrel: "list_all2 (repr ?h (Suc c) ?n (Some c)) (tchildren (?h ! c)) ls"
    by (simp_all add: class_built_def)
  note nth = create_child_nth[where u = u and name = name, OF c, unfolded cid]
  have len: "length (heap ?s') = Suc ?n" using c by (rule create_child_length)
  from fc c have f: "f < ?n" "f \<noteq> c" by simp_all
  have atf: "heap ?s' ! f = ?h ! f" using nth(2)[OF f] .
  have below: "heap ?s' ! x = ?h ! x" if "Suc f \<le> x" "x < c" for x
    using that c nth(2)[of x] by simp
  have above: "heap ?s' ! x = ?h ! x" if "Suc c \<le> x" "x < ?n" for x
    using that nth(2)[of x] by simp
  have krel': "list_all2 (\<lambda>k t. if k = c then node_id t = classId
                        else node_id t \<noteq> classId \<and> repr (heap ?s') (Suc f) c (Some f) k t)
        (tchildren (heap ?s' ! f)) ks"
    unfolding atf using krel
    by (rule list.rel_mono_strong) (auto intro: repr_frame below)
  have lrel': "list_all2 (repr (heap ?s') (Suc c) (Suc ?n) (Some c))
        (collection_add ?h1 (tchildren (?h ! c)) ?n) (upsert_tree (Node ?mid []) ls)"
  proof (rule collection_add_upsert[OF lrel])
    fix k t assume r: "repr ?h (Suc c) ?n (Some c) k t"
    from repr_bounds[OF r] repr_id[OF r] show "tid (?h1 ! k) = node_id t" by (simp add: nth_append)
    from repr_frame[OF r above] show "repr (heap ?s') (Suc c) (Suc ?n) (Some c) k t"
      by (rule repr_widen) simp_all
  next
    show "repr (heap ?s') (Suc c) (Suc ?n) (Some c) ?n (Node ?mid [])"
      using c nth(1) by simp
  qed simp
  have "length fileId < length ?mid" using lens by simp
  then have "?mid \<noteq> fileId" by auto
  then have reg': "testItems ?s' fileId = Some f"
    using reg cid by (simp add: create_child_testItems)
  show ?thesis
    unfolding class_built_def
    using fc c len fid atf reg' nth(3,4,5) cpar lens krel' lrel' by simp
qed

lemma methods_added:
  assumes "class_built s f fileId c classId ks ls"
  shows "class_built (fold (add_method u c) ms s) f fileId c classId ks
           (fold (\<lambda>m. upsert_tree (Node (classId @ ''.'' @ m) [])) ms ls)"
  using assms
proof (induction ms arbitrary: s ls)
  case Nil
  then show ?case by simp
next
  case (Cons m ms)
  from method_item_created[OF Cons.prems, of u m]
  have "class_built (add_method u c m s) f fileId c classId ks
          (upsert_tree (Node (classId @ ''.'' @ m) []) ls)"
    by (simp add: add_method_create_child)
  from Cons.IH[OF this] show ?case by simp
qed

lemma class_finished:
  assumes "class_built s f fileId c classId ks ls"
  shows "file_built s f fileId (map (\<lambda>t. if node_id t = classId then Node classId ls else t) ks)"
proof -
  let ?h = "heap s" and ?n = "length (heap s)"
  from assms have fc: "f < c" and c: "c < ?n" and fid: "tid (?h ! f) = fileId"
    and reg: "testItems s fileId = Some f" and cid: "tid (?h ! c) = classId"
    and cpar: "tparent (?h ! c) = Some f"
    and krel: "list_all2 (\<lambda>k t. if k = c then node_id t = classId
                        else node_id t \<noteq> classId \<and> repr ?h (Suc f) c (Some f) k t)
        (tchildren (?h ! f)) ks"
    and lrel: "list_all2 (repr ?h (Suc c) ?n (Some c)) (tchildren (?h ! c)) ls"
    by (simp_all add: class_built_def)
  from lrel have "list_all2 (repr ?h (Suc f) ?n (Some c)) (tchildren (?h ! c)) ls"
    by (rule list.rel_mono_strong) (use fc in \<open>auto intro: repr_widen\<close>)
  with fc c cid cpar have cl: "repr ?h (Suc f) ?n (Some f) c (Node classId ls)" by simp
  have "list_all2 (\<lambda>k t. repr ?h (Suc f) ?n (Some f) k
           (if node_id t = classId then Node classId ls else t)) (tchildren (?h ! f)) ks"
    using krel
  proof (rule list.rel_mono_strong)
    fix k t
    assume "if k = c then node_id t = classId
            else node_id t \<noteq> classId \<and> repr ?h (Suc f) c (Some f) k t"
    then show "repr ?h (Suc f) ?n (Some f) k (if node_id t = classId then Node classId ls else t)"
      using cl c by (auto split: if_splits intro: repr_widen)
  qed
  then have "list_all2 (repr ?h (Suc f) ?n (Some f)) (tchildren (?h ! f))
               (map (\<lambda>t. if node_id t = classId then Node classId ls else t) ks)"
    by (simp add: list_all2_map2)
  with fc c fid reg show ?thesis by (simp add: file_built_def)
qed

lemma class_added:
  assumes "file_built s f fileId ks"
  shows "file_built (add_class u f d s) f fileId
           (upsert_tree (class_tree (fileId @ ''.'' @ fst d) (snd d)) ks)"
proof -
  let ?cid = "fileId @ ''.'' @ fst d"
  let ?ls = "fold (\<lambda>m. upsert_tree (Node (?cid @ ''.'' @ m) [])) (snd d) []"
  from class_item_created[OF assms, of u "fst d"]
  have "class_built (create_child u f (fst d) s) f fileId (length (heap s)) ?cid
          (upsert_tree (Node ?cid []) ks) []" .
  from class_finished[OF methods_added[OF this, of u "snd d"]]
  have "file_built (add_class u f d s) f fileId
          (map (\<lambda>t. if node_id t = ?cid then Node ?cid ?ls else t) (upsert_tree (Node ?cid []) ks))"
    by (simp add: add_class_create_child)
  then show ?thesis by (simp only: upsert_tree_relabel class_tree_def)
qed

lemma classes_added:
  assumes "file_built s f fileId ks"
  shows "file_built (fold (add_class u f) ds s) f fileId
           (fold (\<lambda>d. upsert_tree (class_tree (fileId @ ''.'' @ fst d) (snd d))) ds ks)"
  using assms
proof (induction ds arbitrary: s ks)
  case Nil
  then show ?case by simp
next
  case (Cons d ds)
  from Cons.IH[OF class_added[OF Cons.prems, of u d]] show ?case by simp
qed

lemma file_built_subtree:
  assumes "file_built s f fileId ks"
  shows "subtree (heap s) n f = cut n (Node fileId ks)"
proof (cases n)
  case 0
  with assms show ?thesis by (simp add: file_built_def)
next
  case (Suc m)
  from assms have "list_all2 (\<lambda>k t. subtree (heap s) m k = cut m t) (tchildren (heap s ! f)) ks"
    unfolding file_built_def by (auto elim: list.rel_mono_strong intro: repr_subtree)
  then have "map (subtree (heap s) m) (tchildren (heap s ! f)) = map (cut m) ks"
    by (rule map_eq_if_rel)
  with Suc assms show ?thesis by (simp add: file_built_def)
qed

lemma add_class_index [simp]: "fileToTestItemsMap (add_class u f d s) = fileToTestItemsMap s"
proof -
  have "fileToTestItemsMap (fold (add_method u c) ms t) = fileToTestItemsMap t" for c ms t
    by (induction ms arbitrary: t) (simp_all add: add_method_create_child)
  then show ?thesis by (simp add: add_class_create_child)
qed

lemma add_classes_index [simp]:
  "fileToTestItemsMap (fold (add_class u f) ds s) = fileToTestItemsMap s"
  by (induction ds arbitrary: s) simp_all

lemma create_child_registered:
  "testItems s i \<noteq> None \<Longrightarrow> testItems (create_child u p name s) i \<noteq> None"
  by (simp add: create_child_testItems)

lemma add_methods_registered:
  "testItems s i \<noteq> None \<Longrightarrow> testItems (fold (add_method u c) ms s) i \<noteq> None"
proof (induction ms arbitrary: s)
  case Nil
  then show ?case by simp
next
  case (Cons m ms)
  from Cons.prems have "testItems (add_method u c m s) i \<noteq> None"
    unfolding add_method_create_child by (rule create_child_registered)
  from Cons.IH[OF this] show ?case by simp
qed

lemma add_class_registered:
  assumes "testItems s i \<noteq> None"
  shows "testItems (add_class u f d s) i \<noteq> None"
  unfolding add_class_create_child
  by (intro add_methods_registered create_child_registered assms)

lemma add_classes_registered:
  "testItems s i \<noteq> None \<Longrightarrow> testItems (fold (add_class u f) ds s) i \<noteq> None"
proof (induction ds arbitrary: s)
  case Nil
  then show ?case by simp
next
  case (Cons d ds)
  from Cons.prems have "testItems (add_class u f d s) i \<noteq> None" by (rule add_class_registered)
  from Cons.IH[OF this] show ?case by simp
qed

lemma remove_heap [simp]: "heap (removeTestsForFile s p) = heap s"
  by (simp add: removeTestsForFile_def split: option.splits)

lemma remove_index [simp]: "fileToTestItemsMap (removeTestsForFile s p) p = None"
  by (simp add: removeTestsForFile_def split: option.splits)

lemma remove_unindexed: "fileToTestItemsMap s p = None \<Longrightarrow> removeTestsForFile s p = s"
  by (simp add: removeTestsForFile_def)

lemma resolve_unfold:
  assumes "endsWith p ''.kt'' \<or> endsWith p ''.kts''" and "readFile p = Some content"
  shows "resolveTestsInFile readFile s (Some p)
         = fold (add_class p (fst (getOrCreateFileTestItem (removeTestsForFile s p) p)))
             (scanDeclarations content) (snd (getOrCreateFileTestItem (removeTestsForFile s p) p))"
  using assms by (auto simp: resolveTestsInFile_def rebuild_def Let_def case_prod_beta)

text \<open>Resolving a file whose id no item holds once its old file item is removed: a fresh
  file item is made, and the tree below it is the one the declarations determine.\<close>

lemma resolve_fresh:
  assumes kt: "endsWith p ''.kt'' \<or> endsWith p ''.kts''"
      and read: "readFile p = Some content"
      and none: "testItems (removeTestsForFile s p) (''kotlin-test:'' @ p) = None"
  shows "fileToTestItemsMap (resolveTestsInFile readFile s (Some p)) p = Some [length (heap s)]"
    and "file_built (resolveTestsInFile readFile s (Some p)) (length (heap s)) (''kotlin-test:'' @ p)
           (node_children (file_tree (''kotlin-test:'' @ p) (scanDeclarations content)))"
proof -
  let ?s1 = "removeTestsForFile s p" and ?fid = "''kotlin-test:'' @ p"
  let ?g = "getOrCreateFileTestItem ?s1 p"
  have f: "fst ?g = length (heap s)"
    and h: "heap (snd ?g) = heap s @ [\<lparr>tid = ?fid, tlabel = basename p, turi = p, tchildren = [],
              tparent = None\<rparr>]"
    and t: "testItems (snd ?g) ?fid = Some (length (heap s))"
    and i: "fileToTestItemsMap (snd ?g) p = Some [length (heap s)]"
    using none by (simp_all add: getOrCreateFileTestItem_def createTestItem_def Let_def)
  have built: "file_built (snd ?g) (length (heap s)) ?fid []"
    using h t by (simp add: file_built_def)
  show "fileToTestItemsMap (resolveTestsInFile readFile s (Some p)) p = Some [length (heap s)]"
    by (simp add: resolve_unfold[where readFile = readFile and content = content, OF kt read] i)
  from classes_added[OF built, of p "scanDeclarations content"]
  show "file_built (resolveTestsInFile readFile s (Some p)) (length (heap s)) ?fid
           (node_children (file_tree ?fid (scanDeclarations content)))"
    by (simp add: resolve_unfold[where readFile = readFile and content = content, OF kt read] f file_tree_def)
qed

lemma resolve_fresh_trees:
  assumes kt: "endsWith p ''.kt'' \<or> endsWith p ''.kts''"
      and read: "readFile p = Some content"
      and none: "testItems (removeTestsForFile s p) (''kotlin-test:'' @ p) = None"
  shows "path_trees (resolveTestsInFile readFile s (Some p)) p n
           = [cut n (file_tree (''kotlin-test:'' @ p) (scanDeclarations content))]"
proof -
  note r = resolve_fresh[where readFile = readFile and content = content, OF kt read none]
  from r(1) file_built_subtree[OF r(2), of n] show ?thesis
    by (simp add: path_trees_def file_tree_def)
qed

lemma resolve_fresh_again:
  assumes kt: "endsWith p ''.kt'' \<or> endsWith p ''.kts''"
      and read: "readFile p = Some content"
      and none: "testItems (removeTestsForFile s p) (''kotlin-test:'' @ p) = None"
  shows "testItems (removeTestsForFile (resolveTestsInFile readFile s (Some p)) p) (''kotlin-test:'' @ p)
           = None"
proof -
  note r = resolve_fresh[where readFile = readFile and content = content, OF kt read none]
  from r show ?thesis
    by (simp add: removeTestsForFile_def file_built_def)
qed

text \<open>Resolving a file whose id another item already holds: that item is used, and the
  file index gets no entry for the path.\<close>

lemma resolve_shadowed:
  assumes kt: "endsWith p ''.kt'' \<or> endsWith p ''.kts''"
      and read: "readFile p = Some content"
      and some: "testItems (removeTestsForFile s p) (''kotlin-test:'' @ p) \<noteq> None"
  shows "fileToTestItemsMap (resolveTestsInFile readFile s (Some p)) p = None"
    and "testItems (resolveTestsInFile readFile s (Some p)) (''kotlin-test:'' @ p) \<noteq> None"
proof -
  let ?s1 = "removeTestsForFile s p"
  from some have g: "snd (getOrCreateFileTestItem ?s1 p) = ?s1"
    by (auto simp: getOrCreateFileTestItem_def)
  show "fileToTestItemsMap (resolveTestsInFile readFile s (Some p)) p = None"
    by (simp add: resolve_unfold[where readFile = readFile and content = content, OF kt read] g)
  show "testItems (resolveTestsInFile readFile s (Some p)) (''kotlin-test:'' @ p) \<noteq> None"
    unfolding resolve_unfold[where readFile = readFile and content = content, OF kt read] g
    using some by (rule add_classes_registered)
qed

text \<open>
  C8. Resolving the same path twice in succession, on the same file system, leaves the
  file index with the same subtrees for that path as resolving it once: the same ids in
  the same parent and child arrangement, at every depth \<open>n\<close>, whatever the store was
  before. Each call first removes what the file index holds for the path. When the file
  is then read and its id is free, both calls build the tree \<open>file_tree\<close> of the scanned
  declarations under a fresh file item (\<open>resolve_fresh_trees\<close>); when the read fails, or
  another item holds the file's id, the path has no entry after either call; a path
  without a recognized extension is left alone by both.
\<close>

theorem rescan_is_idempotent:
  "path_trees (resolveTestsInFile readFile (resolveTestsInFile readFile s (Some p)) (Some p)) p n
     = path_trees (resolveTestsInFile readFile s (Some p)) p n"
proof (cases "endsWith p ''.kt'' \<or> endsWith p ''.kts''")
  case False
  then show ?thesis by (simp add: resolveTestsInFile_def)
next
  case kt: True
  let ?s1 = "resolveTestsInFile readFile s (Some p)"
  show ?thesis
  proof (cases "readFile p")
    case None
    with kt have 1: "?s1 = removeTestsForFile s p"
      by (auto simp: resolveTestsInFile_def)
    then have "fileToTestItemsMap ?s1 p = None" by simp
    then have "removeTestsForFile ?s1 p = ?s1" by (rule remove_unindexed)
    with kt None have "resolveTestsInFile readFile ?s1 (Some p) = ?s1"
      by (auto simp: resolveTestsInFile_def)
    then show ?thesis by simp
  next
    case (Some content)
    show ?thesis
    proof (cases "testItems (removeTestsForFile s p) (''kotlin-test:'' @ p)")
      case None
      note again = resolve_fresh_again[where readFile = readFile and content = content,
          OF kt Some None]
      from resolve_fresh_trees[where readFile = readFile and content = content, OF kt Some again]
           resolve_fresh_trees[where readFile = readFile and content = content, OF kt Some None]
      show ?thesis by simp
    next
      case held: (Some y)
      then have h: "testItems (removeTestsForFile s p) (''kotlin-test:'' @ p) \<noteq> None" by simp
      note 1 = resolve_shadowed[where readFile = readFile and content = content, OF kt Some h]
      from 1(1) have "removeTestsForFile ?s1 p = ?s1" by (rule remove_unindexed)
      with 1(2) have "testItems (removeTestsForFile ?s1 p) (''kotlin-test:'' @ p) \<noteq> None" by simp
      from resolve_shadowed(1)[where readFile = readFile and content = content, OF kt Some this]
        1(1) show ?thesis
        by (simp add: path_trees_def)
    qed
  qed
qed

theorem rescan_is_idempotent_witness:
  "path_trees (resolveTestsInFile sample_readFile sample_store (Some ''/w/FooTest.kt''))
     ''/w/FooTest.kt'' 2
   = [Node ''kotlin-test:/w/FooTest.kt''
        [Node ''kotlin-test:/w/FooTest.kt.FooTest''
           [Node ''kotlin-test:/w/FooTest.kt.FooTest.testBar'' [],
            Node ''kotlin-test:/w/FooTest.kt.FooTest.testBaz'' []]]]"
proof -
  have once: "path_trees sample_store ''/w/FooTest.kt'' 2
     = [Node ''kotlin-test:/w/FooTest.kt''
        [Node ''kotlin-test:/w/FooTest.kt.FooTest''
           [Node ''kotlin-test:/w/FooTest.kt.FooTest.testBar'' [],
            Node ''kotlin-test:/w/FooTest.kt.FooTest.testBaz'' []]]]"
    by (simp add: path_trees_def sample_store_maps(2) sample_store_heap numeral_2_eq_2)
  from rescan_is_idempotent[of sample_readFile initial_store "''/w/FooTest.kt''" 2]
  show ?thesis unfolding sample_store_def[symmetric] once .
qed

end
